theory Spec2Isabelle
  imports Main "HOL-Library.Word"
begin

section \<open>Memory, machine integers and results\<close>

text \<open>
  The runtime works on raw 64-bit words (\<^verbatim>\<open>int64_t\<close>) that are used both as integers and,
  reinterpreted, as pointers. Memory is a function from the byte address of an 8-byte
  cell to the state of that cell: not part of any allocation, allocated but never
  written, or holding a word. \<^verbatim>\<open>p[j]\<close> on an \<^verbatim>\<open>int64_t *p\<close> is the cell at byte address
  \<open>p + 8 * j\<close>, computed modulo \<open>2 ^ 64\<close>.
\<close>

type_synonym word64 = "64 word"
type_synonym addr = word64

datatype cell = Unmapped | Junk | Val word64

type_synonym heap = "addr \<Rightarrow> cell"

text \<open>
  Three ways in which a call does not return a value: behaviour the C standard leaves
  undefined (a read or write outside every allocation, a read of a cell that was never
  written, signed overflow), recursion deeper than the stack, and the abort of a failed
  \<^verbatim>\<open>assert\<close>. The abort carries the diagnostic that \<^verbatim>\<open>assert\<close> writes to the standard error
  stream before it calls \<^verbatim>\<open>abort\<close>: the text of the failed expression, the name of the
  enclosing function and the source line of the \<^verbatim>\<open>assert\<close> (the C standard also has the
  name of the source file in it, which is the path the compiler was given, and leaves
  the format to the host).
\<close>

datatype diagnostic = Diagnostic string string nat

datatype error = Undefined | StackExhausted | AssertionFailed diagnostic

abbreviation bind_r :: "error + 'a \<Rightarrow> ('a \<Rightarrow> error + 'b) \<Rightarrow> error + 'b" where
  "bind_r m f \<equiv> case_sum Inl f m"

definition idx :: "addr \<Rightarrow> int \<Rightarrow> addr" where
  "idx p j = p + 8 * word_of_int j"

definition load :: "heap \<Rightarrow> addr \<Rightarrow> error + word64" where
  "load h p = (case h p of Val v \<Rightarrow> Inr v | Junk \<Rightarrow> Inl Undefined | Unmapped \<Rightarrow> Inl Undefined)"

definition store :: "heap \<Rightarrow> addr \<Rightarrow> word64 \<Rightarrow> error + heap" where
  "store h p v = (if h p = Unmapped then Inl Undefined else Inr (h(p := Val v)))"

text \<open>
  The loop counters of the source are C \<^verbatim>\<open>int\<close>s (32 bits, signed): incrementing
  \<^verbatim>\<open>INT_MAX\<close> is undefined. Arithmetic on \<^verbatim>\<open>int64_t\<close> is undefined when the mathematical
  result does not fit 64 signed bits.
\<close>

definition INT_MAX :: int where
  "INT_MAX = 2147483647"

definition incr :: "int \<Rightarrow> error + int" where
  "incr i = (if i < INT_MAX then Inr (i + 1) else Inl Undefined)"

definition i64 :: "int \<Rightarrow> error + word64" where
  "i64 z = (if - (2 ^ 63) \<le> z \<and> z < 2 ^ 63 then Inr (word_of_int z) else Inl Undefined)"

subsection \<open>The allocator\<close>

text \<open>
  \<^verbatim>\<open>malloc\<close> belongs to the C library, not to this module. It is modelled by its contract:
  the allocator proposes an address \<open>cand\<close>; the call returns it when it is not null and
  the \<open>sz\<close> bytes from it lie inside the address space and overlap no live cell, and
  then those cells become allocated with indeterminate contents; in every other case
  the call fails and returns the null pointer, leaving memory as it was. Every value
  of \<open>cand\<close> gives a behaviour the contract allows, and every behaviour the contract
  allows is given by some \<open>cand\<close>.
\<close>

primrec block_free :: "heap \<Rightarrow> addr \<Rightarrow> nat \<Rightarrow> bool" where
  "block_free h p 0 = True"
| "block_free h p (Suc k) = (h (idx p (int k)) = Unmapped \<and> block_free h p k)"

primrec reserve :: "heap \<Rightarrow> addr \<Rightarrow> nat \<Rightarrow> heap" where
  "reserve h p 0 = h"
| "reserve h p (Suc k) = (reserve h p k)(idx p (int k) := Junk)"

definition malloc :: "addr \<Rightarrow> word64 \<Rightarrow> heap \<Rightarrow> addr \<times> heap" where
  "malloc cand sz h =
     (let k = nat (uint sz div 8) in
      if cand \<noteq> 0 \<and> uint cand + uint sz \<le> 2 ^ 64 \<and> block_free h cand k
      then (cand, reserve h cand k)
      else (0, h))"

section \<open>Flat arrays\<close>

text \<open>\<^verbatim>\<open>intcmp\<close>: the scan of the payload words, then the function.\<close>

function intcmp_loop ::
  "addr \<Rightarrow> addr \<Rightarrow> word64 \<Rightarrow> int \<Rightarrow> int \<Rightarrow> heap \<Rightarrow> error + (word64 \<times> heap)" where
  "intcmp_loop obj1 obj2 obj1_len i j h =
     (if i < sint obj1_len then
        bind_r (load h (idx obj1 j)) (\<lambda>v1.
        bind_r (load h (idx obj2 j)) (\<lambda>v2.
          if v1 \<noteq> v2 then Inr (0, h)
          else
            bind_r (incr j) (\<lambda>j'.
            bind_r (incr i) (\<lambda>i'.
              intcmp_loop obj1 obj2 obj1_len i' j' h))))
      else Inr (1, h))"
  by pat_completeness auto
termination
  by (relation "measure (\<lambda>(obj1, obj2, obj1_len, i, j, h). nat (sint obj1_len - i))")
     (auto simp: incr_def split: if_splits)

definition intcmp :: "addr \<Rightarrow> addr \<Rightarrow> heap \<Rightarrow> error + (word64 \<times> heap)" where
  "intcmp obj1 obj2 h =
     bind_r (load h obj1) (\<lambda>obj1_len.
     bind_r (load h obj2) (\<lambda>obj2_len.
       if obj1_len \<noteq> obj2_len then Inr (0, h)
       else intcmp_loop obj1 obj2 obj1_len 0 1 h))"

text \<open>
  \<^verbatim>\<open>intcpy\<close> and \<^verbatim>\<open>objcpy\<close> share their copy loop word for word
  (\<^verbatim>\<open>for(int i=0;i<n;++i) cpy[i] = obj[i];\<close>).
\<close>

function copy_loop :: "addr \<Rightarrow> addr \<Rightarrow> word64 \<Rightarrow> int \<Rightarrow> heap \<Rightarrow> error + heap" where
  "copy_loop cpy obj n i h =
     (if i < sint n then
        bind_r (load h (idx obj i)) (\<lambda>v.
        bind_r (store h (idx cpy i) v) (\<lambda>h'.
        bind_r (incr i) (\<lambda>i'.
          copy_loop cpy obj n i' h')))
      else Inr h)"
  by pat_completeness auto
termination
  by (relation "measure (\<lambda>(cpy, obj, n, i, h). nat (sint n - i))")
     (auto simp: incr_def split: if_splits)

definition intcpy :: "addr \<Rightarrow> addr \<Rightarrow> heap \<Rightarrow> error + (addr \<times> heap)" where
  "intcpy cand obj h =
     bind_r (load h (idx obj 0)) (\<lambda>len.
     bind_r (i64 (1 + sint len)) (\<lambda>n.
       case malloc cand (8 * n) h of
         (cpy, h1) \<Rightarrow> bind_r (copy_loop cpy obj n 0 h1) (\<lambda>h2. Inr (cpy, h2))))"

function intfill_loop ::
  "addr \<Rightarrow> word64 \<Rightarrow> word64 \<Rightarrow> int \<Rightarrow> int \<Rightarrow> heap \<Rightarrow> error + heap" where
  "intfill_loop obj payload len i j h =
     (if i < sint len then
        bind_r (store h (idx obj j) payload) (\<lambda>h'.
        bind_r (incr j) (\<lambda>j'.
        bind_r (incr i) (\<lambda>i'.
          intfill_loop obj payload len i' j' h')))
      else Inr h)"
  by pat_completeness auto
termination
  by (relation "measure (\<lambda>(obj, payload, len, i, j, h). nat (sint len - i))")
     (auto simp: incr_def split: if_splits)

definition intfill :: "addr \<Rightarrow> word64 \<Rightarrow> heap \<Rightarrow> error + heap" where
  "intfill obj payload h =
     bind_r (load h (idx obj 0)) (\<lambda>len. intfill_loop obj payload len 0 1 h)"

section \<open>Tagged objects\<close>

text \<open>
  \<^verbatim>\<open>objcmp\<close> calls itself on the payloads of a pair. The scan takes the recursive call as
  its first argument; \<open>objcmp\<close> passes itself with one stack frame less. A call with no
  frame left is the stack overflow of an unbounded recursion.
\<close>

function objcmp_loop ::
  "(addr \<Rightarrow> addr \<Rightarrow> heap \<Rightarrow> error + (word64 \<times> heap)) \<Rightarrow>
   addr \<Rightarrow> addr \<Rightarrow> word64 \<Rightarrow> int \<Rightarrow> int \<Rightarrow> heap \<Rightarrow> error + (word64 \<times> heap)" where
  "objcmp_loop rec obj1 obj2 obj1_len i j h =
     (if i < sint obj1_len then
        bind_r (load h (idx obj1 j)) (\<lambda>tag1.
        bind_r (load h (idx obj2 j)) (\<lambda>tag2.
        bind_r (incr j) (\<lambda>j1.
        bind_r (load h (idx obj1 j1)) (\<lambda>p1.
        bind_r (load h (idx obj2 j1)) (\<lambda>p2.
          if p1 = p2 then
            bind_r (incr j1) (\<lambda>j2.
            bind_r (incr i) (\<lambda>i'.
              objcmp_loop rec obj1 obj2 obj1_len i' j2 h))
          else if tag1 \<noteq> tag2 \<or> tag1 = 0 then Inr (0, h)
          else
            bind_r (rec p1 p2 h) (\<lambda>(r, h').
              if r = 0 then Inr (0, h')
              else
                bind_r (incr j1) (\<lambda>j2.
                bind_r (incr i) (\<lambda>i'.
                  objcmp_loop rec obj1 obj2 obj1_len i' j2 h'))))))))
      else Inr (1, h))"
  by pat_completeness auto
termination
  by (relation "measure (\<lambda>(rec, obj1, obj2, obj1_len, i, j, h). nat (sint obj1_len - i))")
     (auto simp: incr_def split: if_splits)

primrec objcmp :: "nat \<Rightarrow> addr \<Rightarrow> addr \<Rightarrow> heap \<Rightarrow> error + (word64 \<times> heap)" where
  "objcmp 0 obj1 obj2 h = Inl StackExhausted"
| "objcmp (Suc depth) obj1 obj2 h =
     bind_r (load h obj1) (\<lambda>obj1_len.
     bind_r (load h obj2) (\<lambda>obj2_len.
       if obj1_len \<noteq> obj2_len then Inr (0, h)
       else objcmp_loop (objcmp depth) obj1 obj2 obj1_len 0 1 h))"

definition objcpy :: "addr \<Rightarrow> addr \<Rightarrow> heap \<Rightarrow> error + (addr \<times> heap)" where
  "objcpy cand obj h =
     bind_r (load h (idx obj 0)) (\<lambda>len.
     bind_r (i64 (sint len * 2)) (\<lambda>twice.
     bind_r (i64 (1 + sint twice)) (\<lambda>n.
       case malloc cand (8 * n) h of
         (cpy, h1) \<Rightarrow> bind_r (copy_loop cpy obj n 0 h1) (\<lambda>h2. Inr (cpy, h2)))))"

function objfill_loop ::
  "addr \<Rightarrow> word64 \<Rightarrow> word64 \<Rightarrow> word64 \<Rightarrow> int \<Rightarrow> int \<Rightarrow> heap \<Rightarrow> error + heap" where
  "objfill_loop obj tag payload len i j h =
     (if i < sint len then
        bind_r (store h (idx obj j) tag) (\<lambda>h1.
        bind_r (incr j) (\<lambda>j1.
        bind_r (store h1 (idx obj j1) payload) (\<lambda>h2.
        bind_r (incr j1) (\<lambda>j2.
        bind_r (incr i) (\<lambda>i'.
          objfill_loop obj tag payload len i' j2 h2)))))
      else Inr h)"
  by pat_completeness auto
termination
  by (relation "measure (\<lambda>(obj, tag, payload, len, i, j, h). nat (sint len - i))")
     (auto simp: incr_def split: if_splits)

definition objfill :: "addr \<Rightarrow> word64 \<Rightarrow> word64 \<Rightarrow> heap \<Rightarrow> error + heap" where
  "objfill obj tag payload h =
     bind_r (load h (idx obj 0)) (\<lambda>len. objfill_loop obj tag payload len 0 1 h)"

section \<open>The assertion primitive\<close>


section \<open>Objects in memory\<close>

text \<open>
  The layout contract of the module, as predicates on memory. A flat array with payload
  \<open>vs\<close> at address \<open>a\<close>: the count word at \<open>a\<close>, then the words of \<open>vs\<close>. A tagged object
  with pairs \<open>ps\<close> at \<open>a\<close>: the count word, then tag and payload of each pair in turn.
\<close>

fun holds_words :: "heap \<Rightarrow> addr \<Rightarrow> int \<Rightarrow> word64 list \<Rightarrow> bool" where
  "holds_words h a j [] = True"
| "holds_words h a j (v # vs) = (h (idx a j) = Val v \<and> holds_words h a (j + 1) vs)"

definition flat_array :: "heap \<Rightarrow> addr \<Rightarrow> word64 list \<Rightarrow> bool" where
  "flat_array h a vs = (h a = Val (word_of_nat (length vs)) \<and> holds_words h a 1 vs)"

fun holds_pairs :: "heap \<Rightarrow> addr \<Rightarrow> int \<Rightarrow> (word64 \<times> word64) list \<Rightarrow> bool" where
  "holds_pairs h a j [] = True"
| "holds_pairs h a j ((t, p) # ps) =
     (h (idx a j) = Val t \<and> h (idx a (j + 1)) = Val p \<and> holds_pairs h a (j + 2) ps)"

text \<open>The words of a list of pairs, in memory order.\<close>

fun pair_words :: "(word64 \<times> word64) list \<Rightarrow> word64 list" where
  "pair_words [] = []"
| "pair_words ((t, p) # ps) = t # p # pair_words ps"

definition tagged_object :: "heap \<Rightarrow> addr \<Rightarrow> (word64 \<times> word64) list \<Rightarrow> bool" where
  "tagged_object h a ps = (h a = Val (word_of_nat (length ps)) \<and> holds_pairs h a 1 ps)"

text \<open>
  The loops count in C \<^verbatim>\<open>int\<close>s, so an object is within reach of the module only when
  the index one past its last word is at most \<^verbatim>\<open>INT_MAX\<close>: fewer than \<open>2 ^ 31 - 1\<close>
  payload words for a flat array, fewer than \<open>2 ^ 30\<close> pairs for a tagged object. On a
  larger count the counters of the source overflow, which C leaves undefined. A valid
  object, below, is one that is laid out in memory and within reach.
\<close>

definition flat_in_reach :: "word64 list \<Rightarrow> bool" where
  "flat_in_reach vs = (int (length vs) < INT_MAX)"

definition pairs_in_reach :: "(word64 \<times> word64) list \<Rightarrow> bool" where
  "pairs_in_reach ps = (2 * int (length ps) < INT_MAX)"

text \<open>
  The allocator can place a block of \<open>k\<close> words at \<open>cand\<close>: what \<open>malloc\<close> tests before it
  returns \<open>cand\<close>.
\<close>

definition can_place :: "heap \<Rightarrow> addr \<Rightarrow> nat \<Rightarrow> bool" where
  "can_place h cand k = (cand \<noteq> 0 \<and> uint cand + 8 * int k \<le> 2 ^ 64 \<and> block_free h cand k)"

subsection \<open>The pair rules of tagged-object compare, as the specification words them\<close>

text \<open>
  Section 4.2 of the specification, on the two lists of pairs: (1) bitwise equal payloads
  pass whatever the tags; (2) otherwise differing tags, or the shared tag 0, make the
  comparison false at once; (3) otherwise the payloads are compared as tagged objects by
  the same compare, and a false result there makes the comparison false at once. True
  only when every pair has passed.
\<close>

fun compare_pairs ::
  "nat \<Rightarrow> heap \<Rightarrow> ((word64 \<times> word64) \<times> (word64 \<times> word64)) list \<Rightarrow> error + (word64 \<times> heap)" where
  "compare_pairs depth h [] = Inr (1, h)"
| "compare_pairs depth h (((tag1, payload1), (tag2, payload2)) # rest) =
     (if payload1 = payload2 then compare_pairs depth h rest
      else if tag1 \<noteq> tag2 \<or> tag1 = 0 then Inr (0, h)
      else
        bind_r (objcmp depth payload1 payload2 h) (\<lambda>(r, h').
          if r = 0 then Inr (0, h') else compare_pairs depth h' rest))"

text \<open>
  A pair passes: its payloads are bitwise equal, or its tags are equal and nonzero and
  the compare of the two payloads, as tagged objects, returns a nonzero word.
\<close>

definition pair_passes ::
  "nat \<Rightarrow> heap \<Rightarrow> (word64 \<times> word64) \<times> (word64 \<times> word64) \<Rightarrow> bool" where
  "pair_passes depth h pr =
     (case pr of ((tag1, payload1), (tag2, payload2)) \<Rightarrow>
        payload1 = payload2 \<or>
        (tag1 = tag2 \<and> tag1 \<noteq> 0 \<and>
         (case objcmp depth payload1 payload2 h of Inr (r, h') \<Rightarrow> r \<noteq> 0 | Inl e \<Rightarrow> False)))"

subsection \<open>Tagged objects as trees\<close>

text \<open>
  The data model of the specification: a tagged object is a sequence of elements, each
  a scalar (tag 0) or a reference with a nonzero tag to another tagged object. \<open>repr h a t\<close>
  says that the memory at \<open>a\<close> lays out the tree \<open>t\<close>, every object of it within reach; two
  addresses that lay out the same tree are structurally identical, whatever the
  addresses of their sub-objects. A tree is finite, so what \<open>repr\<close> describes is acyclic.
\<close>

datatype tobj = TObj "telem list"
  and telem = Scalar word64 | Nested word64 tobj

fun repr :: "heap \<Rightarrow> addr \<Rightarrow> tobj \<Rightarrow> bool"
  and repr_elems :: "heap \<Rightarrow> addr \<Rightarrow> int \<Rightarrow> telem list \<Rightarrow> bool" where
  "repr h a (TObj es) =
     (h a = Val (word_of_nat (length es)) \<and> 2 * int (length es) < INT_MAX \<and> repr_elems h a 1 es)"
| "repr_elems h a j [] = True"
| "repr_elems h a j (Scalar v # es) =
     (h (idx a j) = Val 0 \<and> h (idx a (j + 1)) = Val v \<and> repr_elems h a (j + 2) es)"
| "repr_elems h a j (Nested t sub # es) =
     (t \<noteq> 0 \<and> h (idx a j) = Val t \<and>
      (case h (idx a (j + 1)) of Val p \<Rightarrow> repr h p sub | Junk \<Rightarrow> False | Unmapped \<Rightarrow> False) \<and>
      repr_elems h a (j + 2) es)"

fun height :: "tobj \<Rightarrow> nat"
  and height_elems :: "telem list \<Rightarrow> nat" where
  "height (TObj es) = height_elems es"
| "height_elems [] = 0"
| "height_elems (Scalar v # es) = height_elems es"
| "height_elems (Nested t sub # es) = max (Suc (height sub)) (height_elems es)"

subsection \<open>Concrete memories\<close>

text \<open>
  A memory given by the list of its written cells; every other cell is unmapped.
  \<open>headers_only h a b\<close> is \<open>h\<close> with every cell but the two count words at \<open>a\<close> and \<open>b\<close>
  unmapped, so that reading anything else is undefined.
\<close>

definition heap_of :: "(addr \<times> word64) list \<Rightarrow> heap" where
  "heap_of kvs p = (case map_of kvs p of Some v \<Rightarrow> Val v | None \<Rightarrow> Unmapped)"

definition headers_only :: "heap \<Rightarrow> addr \<Rightarrow> addr \<Rightarrow> heap" where
  "headers_only h a b p = (if p = a \<or> p = b then h p else Unmapped)"

text \<open>
  \<open>flat_heap\<close>: the flat arrays \<open>[3; 1, 2, 3]\<close> at \<open>0x1000\<close> and \<open>[3; 1, 2, 4]\<close> at \<open>0x2000\<close>.
  \<open>nested_heap\<close>: two tagged objects \<open>[2; (0, 5), (1, ref)]\<close> at \<open>0x1000\<close> and \<open>0x2000\<close>, whose
  references point to two separate copies of \<open>[1; (0, 7)]\<close> at \<open>0x3000\<close> and \<open>0x4000\<close>.
\<close>

definition flat_heap :: heap where
  "flat_heap = heap_of
     [(0x1000, 3), (0x1008, 1), (0x1010, 2), (0x1018, 3),
      (0x2000, 3), (0x2008, 1), (0x2010, 2), (0x2018, 4)]"

definition nested_heap :: heap where
  "nested_heap = heap_of
     [(0x1000, 2), (0x1008, 0), (0x1010, 5), (0x1018, 1), (0x1020, 0x3000),
      (0x2000, 2), (0x2008, 0), (0x2010, 5), (0x2018, 1), (0x2020, 0x4000),
      (0x3000, 1), (0x3008, 0), (0x3010, 7),
      (0x4000, 1), (0x4008, 0), (0x4010, 7)]"

text \<open>
  \<open>cyclic_heap\<close>: two tagged objects \<open>[1; (1, ref)]\<close> at \<open>0x1000\<close> and \<open>0x2000\<close>, each
  referring to the other.
\<close>

definition cyclic_heap :: heap where
  "cyclic_heap = heap_of
     [(0x1000, 1), (0x1008, 1), (0x1010, 0x2000),
      (0x2000, 1), (0x2008, 1), (0x2010, 0x1000)]"

declare intcmp_loop.simps [simp del]
declare copy_loop.simps [simp del]
declare intfill_loop.simps [simp del]
declare objcmp_loop.simps [simp del]
declare objfill_loop.simps [simp del]

section \<open>Basic facts\<close>

lemma idx_0: "idx p 0 = p"
  by (simp add: idx_def)

lemma idx_inj:
  assumes "0 \<le> j" "j < 2 ^ 61" "0 \<le> k" "k < 2 ^ 61"
  shows "(idx p j = idx p k) = (j = k)"
proof -
  have e: "(8 :: word64) * word_of_int j = word_of_int (8 * j)"
    "(8 :: word64) * word_of_int k = word_of_int (8 * k)"
    by simp_all
  have "((word_of_int (8 * j) :: word64) = word_of_int (8 * k)) = (8 * j = 8 * k)"
    using assms by (simp only: word_of_int_eq_iff) (simp add: take_bit_int_eq_self)
  then show ?thesis unfolding idx_def e by simp
qed

lemma sint_count: "int n < 2 ^ 63 \<Longrightarrow> sint (word_of_nat n :: word64) = int n"
  by (simp add: signed_of_nat signed_take_bit_int_eq_self)

lemma load_Inl: "load h p = Inl e \<Longrightarrow> e = Undefined"
  by (auto simp: load_def split: cell.splits)

lemma load_Val: "h p = Val v \<Longrightarrow> load h p = Inr v"
  by (simp add: load_def)

lemma incr_Inl: "incr i = Inl e \<Longrightarrow> e = Undefined"
  by (auto simp: incr_def split: if_splits)

lemma incr_ok: "i < INT_MAX \<Longrightarrow> incr i = Inr (i + 1)"
  by (simp add: incr_def)

lemma intcmp_loop_sym: "intcmp_loop a b len i j h = intcmp_loop b a len i j h"
proof (induction a b len i j h rule: intcmp_loop.induct)
  case (1 obj1 obj2 obj1_len i j h)
  show ?case
    apply (subst intcmp_loop.simps)
    apply (subst (2) intcmp_loop.simps)
    using 1
    apply (auto split: sum.splits dest!: load_Inl incr_Inl)
    done
qed

lemma intcmp_sym: "intcmp a b h = intcmp b a h"
  by (auto simp: intcmp_def intcmp_loop_sym split: sum.splits dest!: load_Inl)

lemma intcmp_loop_words:
  assumes "holds_words h a j vs" "holds_words h b j ws" "length vs = length ws"
    "sint len = i + int (length vs)" "j + int (length vs) \<le> INT_MAX" "i < j"
  shows "intcmp_loop a b len i j h = Inr (if vs = ws then 1 else 0, h)"
  using assms
proof (induction vs arbitrary: ws i j)
  case Nil
  then show ?case by (subst intcmp_loop.simps) simp
next
  case (Cons v vs)
  then obtain w ws' where ws: "ws = w # ws'" by (cases ws) auto
  from Cons.prems ws have lt: "i < sint len" "j < INT_MAX" "i < INT_MAX" by auto
  from Cons.prems ws have ld: "load h (idx a j) = Inr v" "load h (idx b j) = Inr w"
    by (auto simp: load_Val)
  have rec: "intcmp_loop a b len (i + 1) (j + 1) h = Inr (if vs = ws' then 1 else 0, h)"
    using Cons.prems ws by (intro Cons.IH) auto
  show ?case
    by (subst intcmp_loop.simps) (simp add: lt ld incr_ok rec ws)
qed

lemma count_word_inj:
  "int m < 2 ^ 63 \<Longrightarrow> int n < 2 ^ 63 \<Longrightarrow> ((word_of_nat m :: word64) = word_of_nat n) = (m = n)"
  by (metis sint_count of_nat_eq_iff)

lemma intcmp_arrays:
  assumes "flat_array h a vs" "flat_array h b ws" "flat_in_reach vs" "flat_in_reach ws"
  shows "intcmp a b h = Inr (if vs = ws then 1 else 0, h)"
proof -
  from assms have la: "load h a = Inr (word_of_nat (length vs))"
    and lb: "load h b = Inr (word_of_nat (length ws))"
    by (simp_all add: flat_array_def load_Val)
  from assms have bnd: "int (length vs) < 2 ^ 63" "int (length ws) < 2 ^ 63"
    by (simp_all add: flat_in_reach_def INT_MAX_def)
  show ?thesis
  proof (cases "length vs = length ws")
    case False
    with bnd have "(word_of_nat (length vs) :: word64) \<noteq> word_of_nat (length ws)"
      by (simp add: count_word_inj)
    with False show ?thesis by (auto simp: intcmp_def la lb)
  next
    case True
    have "intcmp_loop a b (word_of_nat (length vs)) 0 1 h = Inr (if vs = ws then 1 else 0, h)"
      using assms True bnd
      by (intro intcmp_loop_words) (auto simp: flat_array_def flat_in_reach_def sint_count)
    with True show ?thesis by (simp add: intcmp_def la lb)
  qed
qed

lemma intcmp_heap: "intcmp_loop a b len i j h = Inr (r, h') \<Longrightarrow> h' = h"
proof (induction a b len i j h rule: intcmp_loop.induct)
  case (1 obj1 obj2 obj1_len i j h)
  from "1.prems" show ?case
    apply (subst (asm) intcmp_loop.simps)
    apply (auto split: sum.splits if_splits dest: "1.IH")
    done
qed


lemma objcmp_loop_heap:
  "\<forall>p q h r h'. rec p q h = Inr (r, h') \<longrightarrow> h' = h \<Longrightarrow>
   objcmp_loop rec a b len i j h = Inr (r, h') \<Longrightarrow> h' = h"
proof (induction rec a b len i j h rule: objcmp_loop.induct)
  case (1 rec obj1 obj2 len i j h)
  note pure = "1.prems"(1)
  show ?case
  proof (cases "i < sint len")
    case False
    with "1.prems"(2) show ?thesis by (subst (asm) objcmp_loop.simps) simp
  next
    case True
    from "1.prems"(2) True obtain tag1 tag2 j1 p1 p2 where
      L: "load h (idx obj1 j) = Inr tag1" "load h (idx obj2 j) = Inr tag2" "incr j = Inr j1"
         "load h (idx obj1 j1) = Inr p1" "load h (idx obj2 j1) = Inr p2"
      by (subst (asm) objcmp_loop.simps) (simp split: sum.splits)
    note IH1 = "1.IH"(1)[OF True L]
    note IH2 = "1.IH"(2)[OF True L]
    from "1.prems"(2) have E: "(if p1 = p2 then
            bind_r (incr j1) (\<lambda>j2.
            bind_r (incr i) (\<lambda>i'.
              objcmp_loop rec obj1 obj2 len i' j2 h))
          else if tag1 \<noteq> tag2 \<or> tag1 = 0 then Inr (0, h)
          else
            bind_r (rec p1 p2 h) (\<lambda>(r, h').
              if r = 0 then Inr (0, h')
              else
                bind_r (incr j1) (\<lambda>j2.
                bind_r (incr i) (\<lambda>i'.
                  objcmp_loop rec obj1 obj2 len i' j2 h')))) = Inr (r, h')"
      by (subst (asm) objcmp_loop.simps) (simp add: True L)
    show ?thesis
    proof (cases "p1 = p2")
      case True
      with E obtain j2 i' where "incr j1 = Inr j2" "incr i = Inr i'"
         "objcmp_loop rec obj1 obj2 len i' j2 h = Inr (r, h')"
        by (simp split: sum.splits)
      with IH1 True pure show ?thesis by blast
    next
      case neq: False
      show ?thesis
      proof (cases "tag1 \<noteq> tag2 \<or> tag1 = 0")
        case True
        with E neq show ?thesis by auto
      next
        case False
        with E neq obtain r0 h0 where R: "rec p1 p2 h = Inr (r0, h0)"
          by (auto split: sum.splits)
        have h0: "h0 = h" using R pure by blast
        show ?thesis
        proof (cases "r0 = 0")
          case True
          with E neq False R h0 show ?thesis by auto
        next
          case r0: False
          with E neq False R obtain j2 i' where "incr j1 = Inr j2" "incr i = Inr i'"
            "objcmp_loop rec obj1 obj2 len i' j2 h0 = Inr (r, h')"
            by (auto split: sum.splits)
          with IH2 [OF neq False R refl r0 _ _ pure] h0 show ?thesis by blast
        qed
      qed
    qed
  qed
qed

section \<open>The scan of tagged-object compare\<close>

lemma objcmp_loop_done:
  "\<not> i < sint len \<Longrightarrow> objcmp_loop rec a b len i j h = Inr (1, h)"
  by (subst objcmp_loop.simps) simp

lemma objcmp_loop_step:
  assumes "i < sint len"
    "load h (idx a j) = Inr tag1" "load h (idx b j) = Inr tag2" "incr j = Inr j1"
    "load h (idx a j1) = Inr p1" "load h (idx b j1) = Inr p2"
  shows "objcmp_loop rec a b len i j h =
     (if p1 = p2 then
        bind_r (incr j1) (\<lambda>j2. bind_r (incr i) (\<lambda>i'. objcmp_loop rec a b len i' j2 h))
      else if tag1 \<noteq> tag2 \<or> tag1 = 0 then Inr (0, h)
      else
        bind_r (rec p1 p2 h) (\<lambda>(r, h').
          if r = 0 then Inr (0, h')
          else bind_r (incr j1) (\<lambda>j2. bind_r (incr i) (\<lambda>i'. objcmp_loop rec a b len i' j2 h'))))"
  by (subst objcmp_loop.simps) (simp only: assms if_True sum.case)

lemma objcmp_loop_fail:
  assumes "i < sint len"
    "\<not> (\<exists>tag1 tag2 j1 p1 p2. load h (idx a j) = Inr tag1 \<and> load h (idx b j) = Inr tag2 \<and>
         incr j = Inr j1 \<and> load h (idx a j1) = Inr p1 \<and> load h (idx b j1) = Inr p2)"
  shows "objcmp_loop rec a b len i j h = Inl Undefined"
proof (cases "load h (idx a j)")
  case (Inl e)
  then show ?thesis using assms(1) by (subst objcmp_loop.simps) (simp add: load_Inl)
next
  case t1: (Inr tag1)
  show ?thesis
  proof (cases "load h (idx b j)")
    case (Inl e)
    then show ?thesis using assms(1) t1 by (subst objcmp_loop.simps) (simp add: load_Inl)
  next
    case t2: (Inr tag2)
    show ?thesis
    proof (cases "incr j")
      case (Inl e)
      then show ?thesis using assms(1) t1 t2 by (subst objcmp_loop.simps) (simp add: incr_Inl)
    next
      case j1: (Inr j1)
      show ?thesis
      proof (cases "load h (idx a j1)")
        case (Inl e)
        then show ?thesis using assms(1) t1 t2 j1
          by (subst objcmp_loop.simps) (simp add: load_Inl)
      next
        case p1: (Inr p1)
        show ?thesis
        proof (cases "load h (idx b j1)")
          case (Inl e)
          then show ?thesis using assms(1) t1 t2 j1 p1
            by (subst objcmp_loop.simps) (simp add: load_Inl)
        next
          case (Inr p2)
          with t1 t2 j1 p1 assms(2) show ?thesis by blast
        qed
      qed
    qed
  qed
qed


lemma objcmp_loop_sym:
  "\<forall>p q h. rec p q h = rec q p h \<Longrightarrow>
   objcmp_loop rec a b len i j h = objcmp_loop rec b a len i j h"
proof (induction rec a b len i j h rule: objcmp_loop.induct)
  case (1 rec obj1 obj2 len i j h)
  note sym = "1.prems"
  show ?case
  proof (cases "i < sint len")
    case False
    then show ?thesis by (simp add: objcmp_loop_done)
  next
    case True
    show ?thesis
    proof (cases "\<exists>tag1 tag2 j1 p1 p2. load h (idx obj1 j) = Inr tag1 \<and>
         load h (idx obj2 j) = Inr tag2 \<and> incr j = Inr j1 \<and>
         load h (idx obj1 j1) = Inr p1 \<and> load h (idx obj2 j1) = Inr p2")
      case False
      then have F': "\<not> (\<exists>tag1 tag2 j1 p1 p2. load h (idx obj2 j) = Inr tag1 \<and>
         load h (idx obj1 j) = Inr tag2 \<and> incr j = Inr j1 \<and>
         load h (idx obj2 j1) = Inr p1 \<and> load h (idx obj1 j1) = Inr p2)"
        by blast
      show ?thesis
        unfolding objcmp_loop_fail [OF True False] objcmp_loop_fail [OF True F'] ..
    next
      case ex: True
      then obtain tag1 tag2 j1 p1 p2 where
        L: "load h (idx obj1 j) = Inr tag1" "load h (idx obj2 j) = Inr tag2" "incr j = Inr j1"
           "load h (idx obj1 j1) = Inr p1" "load h (idx obj2 j1) = Inr p2"
        by blast
      note IH1 = "1.IH"(1)[OF True L]
      note IH2 = "1.IH"(2)[OF True L]
      note lhs = objcmp_loop_step [OF True L(1,2,3,4,5), of rec]
      note rhs = objcmp_loop_step [OF True L(2,1,3,5,4), of rec]
      have S: "rec p2 p1 h = rec p1 p2 h" using sym by simp
      show ?thesis
      proof (cases "p1 = p2")
        case eq: True
        show ?thesis
        proof (cases "incr j1")
          case (Inl e)
          then show ?thesis unfolding lhs rhs using eq by simp
        next
          case j2: (Inr j2)
          show ?thesis
          proof (cases "incr i")
            case (Inl e)
            then show ?thesis unfolding lhs rhs using eq j2 by simp
          next
            case (Inr i')
            with IH1 [OF eq j2 Inr sym] show ?thesis unfolding lhs rhs using eq j2 by simp
          qed
        qed
      next
        case neq: False
        show ?thesis
        proof (cases "tag1 \<noteq> tag2 \<or> tag1 = 0")
          case True
          then have "tag2 \<noteq> tag1 \<or> tag2 = 0" by auto
          with True neq show ?thesis unfolding lhs rhs by auto
        next
          case tg: False
          then have tg': "\<not> (tag2 \<noteq> tag1 \<or> tag2 = 0)" by auto
          show ?thesis
          proof (cases "rec p1 p2 h")
            case (Inl e)
            then show ?thesis unfolding lhs rhs using neq tg tg' S by auto
          next
            case (Inr rh)
            obtain r h0 where rh: "rh = (r, h0)" by (cases rh)
            show ?thesis
            proof (cases "r = 0")
              case True
              then show ?thesis unfolding lhs rhs using neq tg tg' S Inr rh by auto
            next
              case r: False
              show ?thesis
              proof (cases "incr j1")
                case (Inl e)
                then show ?thesis unfolding lhs rhs using neq tg tg' S Inr rh r by auto
              next
                case j2: (Inr j2)
                show ?thesis
                proof (cases "incr i")
                  case (Inl e)
                  then show ?thesis unfolding lhs rhs using neq tg tg' S Inr rh r j2 by auto
                next
                  case i': (Inr i')
                  have "objcmp_loop rec obj1 obj2 len i' j2 h0 = objcmp_loop rec obj2 obj1 len i' j2 h0"
                    using IH2 [OF neq tg Inr rh [symmetric] r j2 i' sym] .
                  then show ?thesis unfolding lhs rhs using neq tg tg' S Inr rh r j2 i' by auto
                qed
              qed
            qed
          qed
        qed
      qed
    qed
  qed
qed

lemma objcmp_heap: "objcmp depth a b h = Inr (r, h') \<Longrightarrow> h' = h"
proof (induction depth arbitrary: a b h r h')
  case 0
  then show ?case by simp
next
  case (Suc depth)
  have pure: "\<forall>p q h r h'. objcmp depth p q h = Inr (r, h') \<longrightarrow> h' = h"
    using Suc.IH by blast
  from Suc.prems show ?case
    by (auto split: sum.splits if_splits dest: objcmp_loop_heap [OF pure])
qed



lemma objcmp_sym: "objcmp depth a b h = objcmp depth b a h"
proof (induction depth arbitrary: a b h)
  case 0
  show ?case by simp
next
  case (Suc depth)
  have sym: "\<forall>p q h. objcmp depth p q h = objcmp depth q p h"
    using Suc.IH by blast
  show ?case
  proof (cases "load h a")
    case (Inl e)
    then show ?thesis by (auto split: sum.splits dest!: load_Inl)
  next
    case la: (Inr m)
    show ?thesis
    proof (cases "load h b")
      case (Inl e)
      then show ?thesis using la by (auto dest!: load_Inl)
    next
      case (Inr n)
      with la show ?thesis by (simp add: objcmp_loop_sym [OF sym])
    qed
  qed
qed

lemma objcmp_loop_pairs:
  assumes "holds_pairs h a j ps" "holds_pairs h b j qs" "length ps = length qs"
    "sint len = i + int (length ps)" "j + 2 * int (length ps) \<le> INT_MAX" "i < j"
  shows "objcmp_loop (objcmp depth) a b len i j h = compare_pairs depth h (zip ps qs)"
  using assms
proof (induction ps arbitrary: qs i j)
  case Nil
  then show ?case by (simp add: objcmp_loop_done)
next
  case (Cons p ps)
  obtain tag1 p1 where p: "p = (tag1, p1)" by (cases p)
  from Cons.prems obtain tag2 p2 qs' where qs: "qs = (tag2, p2) # qs'" by (cases qs) auto
  from Cons.prems have lt: "i < sint len" and bj: "j < INT_MAX" "j + 1 < INT_MAX" "i < INT_MAX"
    by auto
  from Cons.prems p qs have L: "load h (idx a j) = Inr tag1" "load h (idx b j) = Inr tag2"
    "incr j = Inr (j + 1)" "load h (idx a (j + 1)) = Inr p1" "load h (idx b (j + 1)) = Inr p2"
    using bj by (auto simp: load_Val incr_ok)
  have nx: "incr (j + 1) = Inr (j + 2)" "incr i = Inr (i + 1)"
    using bj by (simp_all add: incr_ok)
  have rest: "objcmp_loop (objcmp depth) a b len (i + 1) (j + 2) h = compare_pairs depth h (zip ps qs')"
    using Cons.prems p qs by (intro Cons.IH) auto
  show ?case
  proof (cases "objcmp depth p1 p2 h")
    case (Inl e)
    then show ?thesis
      unfolding objcmp_loop_step [OF lt L] by (simp add: p qs nx rest)
  next
    case (Inr rh)
    obtain r h0 where rh: "rh = (r, h0)" by (cases rh)
    with Inr have "h0 = h" by (auto dest: objcmp_heap)
    with Inr rh show ?thesis
      unfolding objcmp_loop_step [OF lt L] by (simp add: p qs nx rest)
  qed
qed

lemma objcmp_objects:
  assumes "tagged_object h a ps" "tagged_object h b qs" "pairs_in_reach ps" "pairs_in_reach qs"
  shows "objcmp (Suc depth) a b h =
     (if length ps = length qs then compare_pairs depth h (zip ps qs) else Inr (0, h))"
proof -
  from assms have la: "load h a = Inr (word_of_nat (length ps))"
    and lb: "load h b = Inr (word_of_nat (length qs))"
    by (simp_all add: tagged_object_def load_Val)
  from assms have bnd: "int (length ps) < 2 ^ 63" "int (length qs) < 2 ^ 63"
    by (simp_all add: pairs_in_reach_def INT_MAX_def)
  show ?thesis
  proof (cases "length ps = length qs")
    case False
    with bnd have "(word_of_nat (length ps) :: word64) \<noteq> word_of_nat (length qs)"
      by (simp add: count_word_inj)
    with False show ?thesis by (simp add: la lb)
  next
    case True
    have "objcmp_loop (objcmp depth) a b (word_of_nat (length ps)) 0 1 h
            = compare_pairs depth h (zip ps qs)"
      using assms True bnd
      by (intro objcmp_loop_pairs) (auto simp: tagged_object_def pairs_in_reach_def sint_count)
    with True show ?thesis by (simp add: la lb)
  qed
qed

lemma compare_pairs_heap: "compare_pairs depth h prs = Inr (r, h') \<Longrightarrow> h' = h"
proof (induction depth h prs rule: compare_pairs.induct)
  case (1 depth h)
  then show ?case by simp
next
  case (2 depth h tag1 payload1 tag2 payload2 rest)
  show ?case
  proof (cases "payload1 = payload2")
    case True
    with 2 show ?thesis by simp
  next
    case neq: False
    show ?thesis
    proof (cases "tag1 \<noteq> tag2 \<or> tag1 = 0")
      case True
      with 2 neq show ?thesis by auto
    next
      case tg: False
      with "2.prems" neq obtain r0 h0 where R: "objcmp depth payload1 payload2 h = Inr (r0, h0)"
        by (auto split: sum.splits)
      then have h0: "h0 = h" by (rule objcmp_heap)
      show ?thesis
      proof (cases "r0 = 0")
        case True
        with "2.prems" neq tg R h0 show ?thesis by auto
      next
        case False
        with "2.prems" neq tg R have "compare_pairs depth h0 rest = Inr (r, h')" by auto
        with "2.IH"(2) [OF neq tg R refl False] h0 show ?thesis by simp
      qed
    qed
  qed
qed

lemma compare_pairs_true:
  "(compare_pairs depth h prs = Inr (1, h)) = list_all (pair_passes depth h) prs"
proof (induction depth h prs rule: compare_pairs.induct)
  case (1 depth h)
  show ?case by simp
next
  case (2 depth h tag1 payload1 tag2 payload2 rest)
  show ?case
  proof (cases "payload1 = payload2")
    case True
    with 2 show ?thesis by (simp add: pair_passes_def)
  next
    case neq: False
    show ?thesis
    proof (cases "tag1 \<noteq> tag2 \<or> tag1 = 0")
      case True
      with neq show ?thesis by (auto simp: pair_passes_def)
    next
      case tg: False
      show ?thesis
      proof (cases "objcmp depth payload1 payload2 h")
        case (Inl e)
        with neq tg show ?thesis by (simp add: pair_passes_def)
      next
        case (Inr rh)
        obtain r0 h0 where rh: "rh = (r0, h0)" by (cases rh)
        with Inr have h0: "h0 = h" by (auto dest: objcmp_heap)
        show ?thesis
        proof (cases "r0 = 0")
          case True
          with neq tg Inr rh h0 show ?thesis by (simp add: pair_passes_def)
        next
          case False
          with "2.IH"(2) [OF neq tg Inr rh [symmetric] False] neq tg Inr rh h0
          show ?thesis by (simp add: pair_passes_def)
        qed
      qed
    qed
  qed
qed

lemma compare_pairs_same_payloads:
  "length ps = length qs \<Longrightarrow> map snd ps = map snd qs \<Longrightarrow>
   compare_pairs depth h (zip ps qs) = Inr (1, h)"
proof (induction ps arbitrary: qs)
  case Nil
  then show ?case by simp
next
  case (Cons p ps)
  then obtain q qs' where qs: "qs = q # qs'" by (cases qs) auto
  obtain t1 p1 t2 p2 where pq: "p = (t1, p1)" "q = (t2, p2)" by (cases p, cases q) auto
  with Cons qs show ?case by simp
qed

section \<open>The copy loop and the allocator\<close>

lemma holds_words_cong:
  "holds_words h a j ws \<Longrightarrow>
   (\<forall>k. j \<le> k \<and> k < j + int (length ws) \<longrightarrow> h' (idx a k) = h (idx a k)) \<Longrightarrow>
   holds_words h' a j ws"
proof (induction ws arbitrary: j)
  case Nil
  show ?case by simp
next
  case (Cons w ws)
  from Cons.prems have "h' (idx a j) = Val w" by simp
  moreover have "holds_words h' a (j + 1) ws"
    using Cons.prems by (intro Cons.IH) auto
  ultimately show ?case by simp
qed

lemma holds_words_mapped:
  "holds_words h a j ws \<Longrightarrow> j \<le> k \<Longrightarrow> k < j + int (length ws) \<Longrightarrow> \<exists>v. h (idx a k) = Val v"
proof (induction ws arbitrary: j)
  case Nil
  then show ?case by simp
next
  case (Cons w ws)
  show ?case
  proof (cases "k = j")
    case True
    with Cons.prems show ?thesis by simp
  next
    case False
    with Cons.prems show ?thesis by (intro Cons.IH [of "j + 1"]) auto
  qed
qed

lemma store_ok: "h p \<noteq> Unmapped \<Longrightarrow> store h p v = Inr (h(p := Val v))"
  by (simp add: store_def)

lemma copy_loop_done: "\<not> i < sint n \<Longrightarrow> copy_loop cpy obj n i h = Inr h"
  by (subst copy_loop.simps) simp

lemma copy_loop_step:
  "i < sint n \<Longrightarrow> load h (idx obj i) = Inr v \<Longrightarrow> store h (idx cpy i) v = Inr h1 \<Longrightarrow>
   incr i = Inr i' \<Longrightarrow> copy_loop cpy obj n i h = copy_loop cpy obj n i' h1"
  by (subst copy_loop.simps) simp

lemma copy_loop_words:
  assumes "holds_words h obj i ws"
    "\<forall>k. i \<le> k \<and> k < i + int (length ws) \<longrightarrow> h (idx cpy k) = Junk"
    "sint n = i + int (length ws)" "i + int (length ws) \<le> INT_MAX" "0 \<le> i"
  shows "\<exists>h'. copy_loop cpy obj n i h = Inr h' \<and> holds_words h' cpy i ws \<and>
     (\<forall>q. (\<forall>k. i \<le> k \<and> k < i + int (length ws) \<longrightarrow> q \<noteq> idx cpy k) \<longrightarrow> h' q = h q)"
  using assms
proof (induction ws arbitrary: i h)
  case Nil
  then show ?case by (simp add: copy_loop_done)
next
  case (Cons w ws)
  let ?h1 = "h(idx cpy i := Val w)"
  from Cons.prems have lt: "i < sint n" "i < INT_MAX" by auto
  from Cons.prems have ld: "load h (idx obj i) = Inr w" by (simp add: load_Val)
  from Cons.prems have "h (idx cpy i) = Junk" by simp
  then have st: "store h (idx cpy i) w = Inr ?h1" by (simp add: store_ok)
  have step: "copy_loop cpy obj n i h = copy_loop cpy obj n (i + 1) ?h1"
    using lt ld st by (intro copy_loop_step) (simp_all add: incr_ok)
  have small: "i + int (length (w # ws)) < 2 ^ 61"
    using Cons.prems(4) by (simp add: INT_MAX_def)
  have src: "holds_words ?h1 obj (i + 1) ws"
  proof (rule holds_words_cong)
    show "holds_words h obj (i + 1) ws" using Cons.prems by simp
    show "\<forall>k. i + 1 \<le> k \<and> k < i + 1 + int (length ws) \<longrightarrow> ?h1 (idx obj k) = h (idx obj k)"
    proof (intro allI impI)
      fix k assume k: "i + 1 \<le> k \<and> k < i + 1 + int (length ws)"
      with Cons.prems(1) obtain v where "h (idx obj k) = Val v"
        using holds_words_mapped [of h obj i "w # ws" k] by auto
      with \<open>h (idx cpy i) = Junk\<close> have "idx obj k \<noteq> idx cpy i" by auto
      then show "?h1 (idx obj k) = h (idx obj k)" by simp
    qed
  qed
  have dst: "\<forall>k. i + 1 \<le> k \<and> k < i + 1 + int (length ws) \<longrightarrow> ?h1 (idx cpy k) = Junk"
  proof (intro allI impI)
    fix k assume k: "i + 1 \<le> k \<and> k < i + 1 + int (length ws)"
    with Cons.prems(5) small have "idx cpy k \<noteq> idx cpy i"
      by (subst idx_inj) auto
    moreover from k Cons.prems(2) have "h (idx cpy k) = Junk" by simp
    ultimately show "?h1 (idx cpy k) = Junk" by simp
  qed
  have n': "sint n = i + 1 + int (length ws)" "i + 1 + int (length ws) \<le> INT_MAX" "0 \<le> i + 1"
    using Cons.prems by simp_all
  from Cons.IH [OF src dst n'] obtain h' where
    h': "copy_loop cpy obj n (i + 1) ?h1 = Inr h'" "holds_words h' cpy (i + 1) ws"
      "\<forall>q. (\<forall>k. i + 1 \<le> k \<and> k < i + 1 + int (length ws) \<longrightarrow> q \<noteq> idx cpy k) \<longrightarrow> h' q = ?h1 q"
    by blast
  have "\<forall>k. i + 1 \<le> k \<and> k < i + 1 + int (length ws) \<longrightarrow> idx cpy i \<noteq> idx cpy k"
  proof (intro allI impI)
    fix k assume "i + 1 \<le> k \<and> k < i + 1 + int (length ws)"
    with Cons.prems(5) small show "idx cpy i \<noteq> idx cpy k"
      by (subst idx_inj) auto
  qed
  with h'(3) have "h' (idx cpy i) = ?h1 (idx cpy i)" by blast
  then have first: "h' (idx cpy i) = Val w" by simp
  have frame: "\<forall>q. (\<forall>k. i \<le> k \<and> k < i + int (length (w # ws)) \<longrightarrow> q \<noteq> idx cpy k) \<longrightarrow> h' q = h q"
  proof (intro allI impI)
    fix q assume q: "\<forall>k. i \<le> k \<and> k < i + int (length (w # ws)) \<longrightarrow> q \<noteq> idx cpy k"
    then have "\<forall>k. i + 1 \<le> k \<and> k < i + 1 + int (length ws) \<longrightarrow> q \<noteq> idx cpy k" by auto
    with h'(3) have "h' q = ?h1 q" by blast
    moreover from q have "q \<noteq> idx cpy i" by auto
    ultimately show "h' q = h q" by simp
  qed
  from step h'(1,2) first frame show ?case by simp
qed

lemma reserve_apply:
  "reserve h p k q = (if \<exists>m<k. q = idx p (int m) then Junk else h q)"
  by (induction k) (auto simp: less_Suc_eq)

lemma block_free_iff: "block_free h p k = (\<forall>m<k. h (idx p (int m)) = Unmapped)"
  by (induction k) (auto simp: less_Suc_eq)

lemma uint_bytes:
  assumes "int k < 2 ^ 60"
  shows "uint (8 * word_of_nat k :: word64) = 8 * int k"
proof -
  have "(8 * word_of_nat k :: word64) = word_of_int (8 * int k)" by simp
  moreover have "uint (word_of_int (8 * int k) :: word64) = 8 * int k"
    using assms by (simp only: uint_word_of_int) simp
  ultimately show ?thesis by simp
qed

lemma malloc_places:
  assumes "can_place h cand k" "int k < 2 ^ 60"
  shows "malloc cand (8 * word_of_nat k) h = (cand, reserve h cand k)"
  using assms by (simp add: malloc_def can_place_def uint_bytes)

lemma holds_pairs_words: "holds_pairs h a j ps = holds_words h a j (pair_words ps)"
proof (induction ps arbitrary: j)
  case Nil
  show ?case by simp
next
  case (Cons p ps)
  obtain t v where p: "p = (t, v)" by (cases p)
  from Cons [of "j + 2"] p show ?case by (simp add: ac_simps)
qed

lemma length_pair_words: "length (pair_words ps) = 2 * length ps"
  by (induction ps rule: pair_words.induct) simp_all

lemma reserve_in: "0 \<le> k \<Longrightarrow> k < int K \<Longrightarrow> reserve h p K (idx p k) = Junk"
proof -
  assume k: "0 \<le> k" "k < int K"
  then have "nat k < K" by linarith
  moreover from k have "int (nat k) = k" by simp
  ultimately have "\<exists>m<K. idx p k = idx p (int m)" by metis
  then show ?thesis by (simp only: reserve_apply if_True)
qed

lemma reserve_out: "\<forall>m<K. q \<noteq> idx p (int m) \<Longrightarrow> reserve h p K q = h q"
  by (auto simp add: reserve_apply)

lemma block_cells:
  "(\<forall>m<K. q \<noteq> idx p (int m)) = (\<forall>k. 0 \<le> k \<and> k < 0 + int K \<longrightarrow> q \<noteq> idx p k)"
proof
  assume a: "\<forall>m<K. q \<noteq> idx p (int m)"
  show "\<forall>k. 0 \<le> k \<and> k < 0 + int K \<longrightarrow> q \<noteq> idx p k"
  proof (intro allI impI)
    fix k assume k: "0 \<le> k \<and> k < 0 + int K"
    then have "nat k < K" by linarith
    with a have "q \<noteq> idx p (int (nat k))" by blast
    moreover from k have "int (nat k) = k" by simp
    ultimately show "q \<noteq> idx p k" by metis
  qed
next
  assume b: "\<forall>k. 0 \<le> k \<and> k < 0 + int K \<longrightarrow> q \<noteq> idx p k"
  show "\<forall>m<K. q \<noteq> idx p (int m)"
  proof (intro allI impI)
    fix m assume "m < K"
    then have "0 \<le> int m \<and> int m < 0 + int K" by simp
    with b show "q \<noteq> idx p (int m)" by blast
  qed
qed


lemma clone_block:
  assumes src: "holds_words h obj 0 (w # ws)"
    and reach: "int (length (w # ws)) \<le> INT_MAX"
    and place: "can_place h cand (length (w # ws))"
    and n: "sint n = int (length (w # ws))"
  shows "\<exists>h2. copy_loop cand obj n 0 (reserve h cand (length (w # ws))) = Inr h2 \<and>
      holds_words h2 cand 0 (w # ws) \<and>
      (\<forall>q. (\<forall>m<length (w # ws). q \<noteq> idx cand (int m)) \<longrightarrow> h2 q = h q) \<and>
      (\<forall>q. h q \<noteq> Unmapped \<longrightarrow> h2 q = h q) \<and> cand \<noteq> obj"
proof -
  define K where "K = length (w # ws)"
  define h1 where "h1 = reserve h cand K"
  have Kpos: "0 < K" by (simp add: K_def)
  from place have free: "\<forall>m<K. h (idx cand (int m)) = Unmapped"
    by (simp add: can_place_def block_free_iff K_def)
  have keep: "\<forall>m<K. q \<noteq> idx cand (int m)" if "h q \<noteq> Unmapped" for q
    using free that by blast
  have src1: "holds_words h1 obj 0 (w # ws)"
  proof (rule holds_words_cong [OF src], intro allI impI)
    fix k assume k: "0 \<le> k \<and> k < 0 + int (length (w # ws))"
    with src obtain v where "h (idx obj k) = Val v"
      using holds_words_mapped [of h obj 0 "w # ws" k] by blast
    then have "h (idx obj k) \<noteq> Unmapped" by simp
    from keep [OF this] show "h1 (idx obj k) = h (idx obj k)"
      unfolding h1_def by (rule reserve_out)
  qed
  have dst1: "\<forall>k. 0 \<le> k \<and> k < 0 + int (length (w # ws)) \<longrightarrow> h1 (idx cand k) = Junk"
  proof (intro allI impI)
    fix k assume "0 \<le> k \<and> k < 0 + int (length (w # ws))"
    then have "0 \<le> k" "k < int K" unfolding K_def by simp_all
    then show "h1 (idx cand k) = Junk" unfolding h1_def by (rule reserve_in)
  qed
  have n0: "sint n = 0 + int (length (w # ws))" "0 + int (length (w # ws)) \<le> INT_MAX"
    "(0 :: int) \<le> 0"
    using n reach by simp_all
  from copy_loop_words [OF src1 dst1 n0] obtain h2 where
    h2: "copy_loop cand obj n 0 h1 = Inr h2" "holds_words h2 cand 0 (w # ws)"
      "\<forall>q. (\<forall>k. 0 \<le> k \<and> k < 0 + int (length (w # ws)) \<longrightarrow> q \<noteq> idx cand k) \<longrightarrow> h2 q = h1 q"
    by blast
  have frame: "\<forall>q. (\<forall>m<K. q \<noteq> idx cand (int m)) \<longrightarrow> h2 q = h q"
  proof (intro allI impI)
    fix q assume q: "\<forall>m<K. q \<noteq> idx cand (int m)"
    then have "\<forall>k. 0 \<le> k \<and> k < 0 + int (length (w # ws)) \<longrightarrow> q \<noteq> idx cand k"
      unfolding K_def by (simp only: block_cells)
    with h2(3) have "h2 q = h1 q" by blast
    also from q have "h1 q = h q" unfolding h1_def by (rule reserve_out)
    finally show "h2 q = h q" .
  qed
  have mapped: "\<forall>q. h q \<noteq> Unmapped \<longrightarrow> h2 q = h q"
    using frame keep by blast
  from src have "h obj = Val w" by (simp add: idx_0)
  moreover from free Kpos have "h (idx cand (int 0)) = Unmapped" by blast
  then have "h cand = Unmapped" by (simp add: idx_0)
  ultimately have "cand \<noteq> obj" by auto
  with h2(1,2) frame mapped show ?thesis unfolding h1_def K_def by blast
qed

lemma sint_int: "- (2 ^ 63) \<le> z \<Longrightarrow> z < 2 ^ 63 \<Longrightarrow> sint (word_of_int z :: word64) = z"
  by (simp add: signed_of_int signed_take_bit_int_eq_self)

lemma holds_words_mapped_frame:
  assumes "holds_words h a j ws" "\<forall>q. h q \<noteq> Unmapped \<longrightarrow> h' q = h q"
  shows "holds_words h' a j ws"
proof (rule holds_words_cong [OF assms(1)], intro allI impI)
  fix k assume "j \<le> k \<and> k < j + int (length ws)"
  with assms(1) obtain v where "h (idx a k) = Val v"
    using holds_words_mapped [of h a j ws k] by blast
  then have "h (idx a k) \<noteq> Unmapped" by simp
  with assms(2) show "h' (idx a k) = h (idx a k)" by blast
qed

lemma intcpy_array:
  assumes arr: "flat_array h x vs" and reach: "flat_in_reach vs"
    and place: "can_place h cand (Suc (length vs))"
  shows "\<exists>h'. intcpy cand x h = Inr (cand, h') \<and> flat_array h' cand vs \<and> flat_array h' x vs \<and>
      (\<forall>q. (\<forall>m<Suc (length vs). q \<noteq> idx cand (int m)) \<longrightarrow> h' q = h q) \<and>
      (\<forall>q. h q \<noteq> Unmapped \<longrightarrow> h' q = h q) \<and> cand \<noteq> x"
proof -
  define len :: word64 where "len = word_of_nat (length vs)"
  define n :: word64 where "n = word_of_nat (Suc (length vs))"
  from reach have L: "int (length vs) < INT_MAX" by (simp add: flat_in_reach_def)
  then have sl: "sint len = int (length vs)"
    unfolding len_def by (intro sint_count) (simp add: INT_MAX_def)
  have "sint (word_of_nat (Suc (length vs)) :: word64) = int (Suc (length vs))"
    using L by (intro sint_count) (simp add: INT_MAX_def)
  then have sn: "sint n = int (length (len # vs))"
    unfolding n_def by (simp only: length_Cons)
  from arr have hx: "h x = Val len" and pw: "holds_words h x 1 vs"
    by (simp_all add: flat_array_def len_def)
  have ld: "load h (idx x 0) = Inr len" using hx by (simp add: idx_0 load_Val)
  have "(word_of_int (1 + int (length vs)) :: word64) = n"
    unfolding n_def by simp
  then have n_eq: "i64 (1 + sint len) = Inr n"
    using L by (simp add: i64_def sl INT_MAX_def)
  have "int (Suc (length vs)) < 2 ^ 60" using L by (simp add: INT_MAX_def)
  with place have "malloc cand (8 * word_of_nat (Suc (length vs))) h
      = (cand, reserve h cand (Suc (length vs)))"
    by (rule malloc_places)
  then have mal: "malloc cand (8 * n) h = (cand, reserve h cand (length (len # vs)))"
    unfolding n_def by (simp only: length_Cons)
  have src: "holds_words h x 0 (len # vs)" using hx pw by (simp add: idx_0)
  have r: "int (length (len # vs)) \<le> INT_MAX" using L by simp
  have pl: "can_place h cand (length (len # vs))" using place by simp
  from clone_block [OF src r pl sn] obtain h2 where
    h2: "copy_loop cand x n 0 (reserve h cand (length (len # vs))) = Inr h2"
      "holds_words h2 cand 0 (len # vs)"
      "\<forall>q. (\<forall>m<length (len # vs). q \<noteq> idx cand (int m)) \<longrightarrow> h2 q = h q"
      "\<forall>q. h q \<noteq> Unmapped \<longrightarrow> h2 q = h q" "cand \<noteq> x"
    by blast
  have run: "intcpy cand x h = Inr (cand, h2)"
    unfolding intcpy_def by (simp only: ld n_eq mal h2(1) sum.case prod.case)
  from h2(2) have c: "flat_array h2 cand vs"
    by (simp add: flat_array_def idx_0 len_def)
  from src h2(4) have "holds_words h2 x 0 (len # vs)" by (rule holds_words_mapped_frame)
  then have k: "flat_array h2 x vs" by (simp add: flat_array_def idx_0 len_def)
  from h2(3) have f: "\<forall>q. (\<forall>m<Suc (length vs). q \<noteq> idx cand (int m)) \<longrightarrow> h2 q = h q"
    by simp
  from run c k f h2(4,5) show ?thesis by blast
qed


lemma objcpy_object:
  assumes obj: "tagged_object h x ps" and reach: "pairs_in_reach ps"
    and place: "can_place h cand (Suc (2 * length ps))"
  shows "\<exists>h'. objcpy cand x h = Inr (cand, h') \<and> tagged_object h' cand ps \<and>
      tagged_object h' x ps \<and>
      (\<forall>q. (\<forall>m<Suc (2 * length ps). q \<noteq> idx cand (int m)) \<longrightarrow> h' q = h q) \<and>
      (\<forall>q. h q \<noteq> Unmapped \<longrightarrow> h' q = h q) \<and> cand \<noteq> x"
proof -
  define len :: word64 where "len = word_of_nat (length ps)"
  define twice :: word64 where "twice = word_of_int (2 * int (length ps))"
  define n :: word64 where "n = word_of_nat (Suc (2 * length ps))"
  define ws where "ws = pair_words ps"
  have lw: "length (len # ws) = Suc (2 * length ps)"
    by (simp add: ws_def length_pair_words)
  from reach have L: "2 * int (length ps) < INT_MAX" by (simp add: pairs_in_reach_def)
  then have sl: "sint len = int (length ps)"
    unfolding len_def by (intro sint_count) (simp add: INT_MAX_def)
  have st: "sint twice = 2 * int (length ps)"
    unfolding twice_def using L by (intro sint_int) (simp_all add: INT_MAX_def)
  have "sint (word_of_nat (Suc (2 * length ps)) :: word64) = int (Suc (2 * length ps))"
    using L by (intro sint_count) (simp add: INT_MAX_def)
  then have sn: "sint n = int (length (len # ws))"
    unfolding n_def by (simp only: lw)
  from obj have hx: "h x = Val len" and pw: "holds_words h x 1 ws"
    by (simp_all add: tagged_object_def len_def ws_def holds_pairs_words)
  have ld: "load h (idx x 0) = Inr len" using hx by (simp add: idx_0 load_Val)
  have t_eq: "i64 (sint len * 2) = Inr twice"
    using L by (simp add: i64_def sl twice_def INT_MAX_def)
  have "(word_of_int (1 + 2 * int (length ps)) :: word64) = n"
    unfolding n_def by simp
  then have n_eq: "i64 (1 + sint twice) = Inr n"
    using L by (simp add: i64_def st INT_MAX_def)
  have "int (Suc (2 * length ps)) < 2 ^ 60" using L by (simp add: INT_MAX_def)
  with place have "malloc cand (8 * word_of_nat (Suc (2 * length ps))) h
      = (cand, reserve h cand (Suc (2 * length ps)))"
    by (rule malloc_places)
  then have mal: "malloc cand (8 * n) h = (cand, reserve h cand (length (len # ws)))"
    unfolding n_def by (simp only: lw)
  have src: "holds_words h x 0 (len # ws)" using hx pw by (simp add: idx_0)
  have r: "int (length (len # ws)) \<le> INT_MAX" using L by (simp only: lw)
  have pl: "can_place h cand (length (len # ws))" using place by (simp only: lw)
  from clone_block [OF src r pl sn] obtain h2 where
    h2: "copy_loop cand x n 0 (reserve h cand (length (len # ws))) = Inr h2"
      "holds_words h2 cand 0 (len # ws)"
      "\<forall>q. (\<forall>m<length (len # ws). q \<noteq> idx cand (int m)) \<longrightarrow> h2 q = h q"
      "\<forall>q. h q \<noteq> Unmapped \<longrightarrow> h2 q = h q" "cand \<noteq> x"
    by blast
  have run: "objcpy cand x h = Inr (cand, h2)"
    unfolding objcpy_def by (simp only: ld t_eq n_eq mal h2(1) sum.case prod.case)
  from h2(2) have c: "tagged_object h2 cand ps"
    by (simp add: tagged_object_def idx_0 len_def ws_def holds_pairs_words)
  from src h2(4) have "holds_words h2 x 0 (len # ws)" by (rule holds_words_mapped_frame)
  then have k: "tagged_object h2 x ps"
    by (simp add: tagged_object_def idx_0 len_def ws_def holds_pairs_words)
  from h2(3) have f: "\<forall>q. (\<forall>m<Suc (2 * length ps). q \<noteq> idx cand (int m)) \<longrightarrow> h2 q = h q"
    by (simp only: lw)
  from run c k f h2(4,5) show ?thesis by blast
qed

section \<open>Length short-circuit\<close>

text \<open>
  C2. When the count words of the two arguments differ, \<open>intcmp\<close> and \<open>objcmp\<close> return 0
  (false) and read no payload word: the result is the same in the memory in which
  only the two count words are mapped, where any other read would be undefined.
\<close>

theorem count_mismatch_false:
  assumes "h a = Val m" "h b = Val n" "m \<noteq> n"
  shows "intcmp a b h = Inr (0, h) \<and> objcmp (Suc depth) a b h = Inr (0, h) \<and>
         intcmp a b (headers_only h a b) = Inr (0, headers_only h a b) \<and>
         objcmp (Suc depth) a b (headers_only h a b) = Inr (0, headers_only h a b)"
  using assms by (simp add: intcmp_def load_def headers_only_def)

theorem count_mismatch_false_witness:
  "intcmp 0x1000 0x2000 (heap_of [(0x1000, 3), (0x2000, 2)])
     = Inr (0, heap_of [(0x1000, 3), (0x2000, 2)]) \<and>
   objcmp (Suc 0) 0x1000 0x2000 (heap_of [(0x1000, 3), (0x2000, 2)])
     = Inr (0, heap_of [(0x1000, 3), (0x2000, 2)])"
  using count_mismatch_false [of "heap_of [(0x1000, 3), (0x2000, 2)]" "0x1000" 3 "0x2000" 2 0]
  by (simp add: heap_of_def)

section \<open>The pair rules of tagged-object compare\<close>

lemma nested_heap_objects:
  "tagged_object nested_heap 0x1000 [(0, 5), (1, 0x3000)]"
  "tagged_object nested_heap 0x2000 [(0, 5), (1, 0x4000)]"
  "tagged_object nested_heap 0x3000 [(0, 7)]"
  "tagged_object nested_heap 0x4000 [(0, 7)]"
  by (simp_all add: tagged_object_def nested_heap_def heap_of_def idx_def)

lemma flat_heap_arrays:
  "flat_array flat_heap 0x1000 [1, 2, 3]"
  "flat_array flat_heap 0x2000 [1, 2, 4]"
  by (simp_all add: flat_array_def flat_heap_def heap_of_def idx_def)

text \<open>
  C1. For two valid tagged objects of equal count, \<open>objcmp\<close> computes what the three rules of
  the specification compute on the two lists of pairs (\<open>compare_pairs\<close>): equal payloads
  pass whatever the tags; otherwise differing tags or the shared tag 0 give 0 at once,
  with no recursive call; otherwise the result of the recursive compare of the two
  payloads decides, 0 giving 0 at once. The result is 1 exactly when every pair passes.
\<close>

theorem objcmp_pair_rules:
  assumes "tagged_object h a ps" "tagged_object h b qs" "length ps = length qs"
    "pairs_in_reach ps"
  shows "objcmp (Suc depth) a b h = compare_pairs depth h (zip ps qs) \<and>
         (objcmp (Suc depth) a b h = Inr (1, h)) = list_all (pair_passes depth h) (zip ps qs)"
proof -
  from assms have "pairs_in_reach qs" by (simp add: pairs_in_reach_def)
  with assms have "objcmp (Suc depth) a b h = compare_pairs depth h (zip ps qs)"
    by (simp add: objcmp_objects del: objcmp.simps)
  then show ?thesis by (simp only: compare_pairs_true)
qed

theorem objcmp_pair_rules_witness:
  "objcmp (Suc (Suc 0)) 0x1000 0x2000 nested_heap
     = compare_pairs (Suc 0) nested_heap (zip [(0, 5), (1, 0x3000)] [(0, 5), (1, 0x4000)]) \<and>
   (objcmp (Suc (Suc 0)) 0x1000 0x2000 nested_heap = Inr (1, nested_heap))
     = list_all (pair_passes (Suc 0) nested_heap) (zip [(0, 5), (1, 0x3000)] [(0, 5), (1, 0x4000)])"
proof -
  have "length [(0 :: word64, 5 :: word64), (1, 0x3000)] = length [(0 :: word64, 5 :: word64), (1, 0x4000)]"
    by simp
  moreover have "pairs_in_reach [(0, 5), (1, 0x3000)]"
    by (simp add: pairs_in_reach_def INT_MAX_def)
  ultimately show ?thesis
    using nested_heap_objects(1,2) by (rule objcmp_pair_rules [rotated 2])
qed

section \<open>Reflexivity and symmetry\<close>

text \<open>
  C3. Comparing a valid flat array, or a valid tagged object, with itself returns 1
  (true) and leaves memory as it was. The object graph need not be acyclic. For a tagged object one stack frame is enough: the payloads
  of every pair are the same words, so no pair is followed.
\<close>

theorem compare_reflexive:
  "(flat_array h x vs \<and> flat_in_reach vs \<longrightarrow> intcmp x x h = Inr (1, h)) \<and>
   (tagged_object g y ps \<and> pairs_in_reach ps \<longrightarrow> objcmp (Suc depth) y y g = Inr (1, g))"
proof (intro conjI impI)
  assume "flat_array h x vs \<and> flat_in_reach vs"
  then show "intcmp x x h = Inr (1, h)"
    using intcmp_arrays [of h x vs x vs] by simp
next
  assume "tagged_object g y ps \<and> pairs_in_reach ps"
  then have "objcmp (Suc depth) y y g = compare_pairs depth g (zip ps ps)"
    using objcmp_objects [of g y ps y ps depth] by simp
  then show "objcmp (Suc depth) y y g = Inr (1, g)"
    by (simp only: compare_pairs_same_payloads)
qed

theorem compare_reflexive_witness:
  "intcmp 0x1000 0x1000 flat_heap = Inr (1, flat_heap) \<and>
   objcmp (Suc 0) 0x1000 0x1000 nested_heap = Inr (1, nested_heap)"
proof -
  have "flat_in_reach [1, 2, 3]" "pairs_in_reach [(0, 5), (1, 0x3000)]"
    by (simp_all add: flat_in_reach_def pairs_in_reach_def INT_MAX_def)
  with flat_heap_arrays(1) nested_heap_objects(1) show ?thesis
    using compare_reflexive [of flat_heap "0x1000" "[1, 2, 3]" nested_heap "0x1000"
        "[(0, 5), (1, 0x3000)]" 0]
    by blast
qed

text \<open>
  C4. Both compares are symmetric in their arguments: the two calls give the same
  result, and fail the same way when they fail, on every memory and for every pair of
  addresses, valid objects or not.
\<close>

theorem compare_symmetric:
  "intcmp a b h = intcmp b a h \<and> objcmp depth c d g = objcmp depth d c g"
  using intcmp_sym objcmp_sym by blast

theorem compare_symmetric_witness:
  "intcmp 0x1000 0x2000 flat_heap = intcmp 0x2000 0x1000 flat_heap \<and>
   objcmp (Suc (Suc 0)) 0x1000 0x2000 nested_heap = objcmp (Suc (Suc 0)) 0x2000 0x1000 nested_heap"
  by (rule compare_symmetric)

lemma intcmp_pure: "intcmp a b h = Inr (r, h') \<Longrightarrow> h' = h"
  by (auto simp: intcmp_def split: sum.splits if_splits dest: intcmp_heap)

lemma holds_pairs_nth:
  "holds_pairs h a j ps \<Longrightarrow> k < length ps \<Longrightarrow> ps ! k = (t, y) \<Longrightarrow>
   h (idx a (j + 2 * int k)) = Val t \<and> h (idx a (j + 2 * int k + 1)) = Val y"
proof (induction ps arbitrary: j k)
  case Nil
  then show ?case by simp
next
  case (Cons p ps)
  obtain t0 y0 where p: "p = (t0, y0)" by (cases p)
  show ?case
  proof (cases k)
    case 0
    with Cons.prems p show ?thesis by simp
  next
    case (Suc k')
    with Cons.prems p have "h (idx a (j + 2 + 2 * int k')) = Val t \<and>
        h (idx a (j + 2 + 2 * int k' + 1)) = Val y"
      by (intro Cons.IH) simp_all
    moreover have "j + 2 + 2 * int k' = j + 2 * int k" using Suc by simp
    ultimately show ?thesis by simp
  qed
qed

lemma flat_heap_place: "can_place flat_heap 0x5000 (Suc (length [1 :: word64, 2, 3]))"
  by (simp add: can_place_def flat_heap_def heap_of_def idx_def)

lemma nested_heap_place:
  "can_place nested_heap 0x5000 (Suc (2 * length [(0 :: word64, 5 :: word64), (1, 0x3000)]))"
proof -
  have "block_free nested_heap 0x5000 (Suc (Suc (Suc (Suc (Suc 0)))))"
    by (simp add: nested_heap_def heap_of_def idx_def)
  moreover have "Suc (2 * length [(0 :: word64, 5 :: word64), (1, 0x3000)]) = Suc (Suc (Suc (Suc (Suc 0))))"
    by simp
  ultimately show ?thesis
    by (simp only: can_place_def) simp
qed


section \<open>Clone\<close>

text \<open>
  C5. When the allocator can place the block, the clone of a valid flat array, or of a
  valid tagged object, is returned at the address of the new block, which is not the address of its
  source, and the source compares equal to it (result 1) in the memory after the call.
\<close>

theorem clone_fidelity:
  "(flat_array h x vs \<and> flat_in_reach vs \<and> can_place h cand (Suc (length vs)) \<longrightarrow>
      (\<exists>h'. intcpy cand x h = Inr (cand, h') \<and> intcmp x cand h' = Inr (1, h') \<and> cand \<noteq> x)) \<and>
   (tagged_object g y ps \<and> pairs_in_reach ps \<and> can_place g cand' (Suc (2 * length ps)) \<longrightarrow>
      (\<exists>g'. objcpy cand' y g = Inr (cand', g') \<and> objcmp (Suc depth) y cand' g' = Inr (1, g') \<and>
            cand' \<noteq> y))"
proof (intro conjI impI)
  assume a: "flat_array h x vs \<and> flat_in_reach vs \<and> can_place h cand (Suc (length vs))"
  then obtain h' where h': "intcpy cand x h = Inr (cand, h')" "flat_array h' cand vs"
      "flat_array h' x vs" "cand \<noteq> x"
    using intcpy_array [of h x vs cand] by blast
  with a have "intcmp x cand h' = Inr (1, h')"
    using intcmp_arrays [of h' x vs cand vs] by simp
  with h' show "\<exists>h'. intcpy cand x h = Inr (cand, h') \<and> intcmp x cand h' = Inr (1, h') \<and> cand \<noteq> x"
    by blast
next
  assume a: "tagged_object g y ps \<and> pairs_in_reach ps \<and> can_place g cand' (Suc (2 * length ps))"
  then obtain g' where g': "objcpy cand' y g = Inr (cand', g')" "tagged_object g' cand' ps"
      "tagged_object g' y ps" "cand' \<noteq> y"
    using objcpy_object [of g y ps cand'] by blast
  with a have "objcmp (Suc depth) y cand' g' = compare_pairs depth g' (zip ps ps)"
    using objcmp_objects [of g' y ps cand' ps depth] by simp
  then have "objcmp (Suc depth) y cand' g' = Inr (1, g')"
    by (simp only: compare_pairs_same_payloads)
  with g' show "\<exists>g'. objcpy cand' y g = Inr (cand', g') \<and>
      objcmp (Suc depth) y cand' g' = Inr (1, g') \<and> cand' \<noteq> y"
    by blast
qed

theorem clone_fidelity_witness:
  "(\<exists>h'. intcpy 0x5000 0x1000 flat_heap = Inr (0x5000, h') \<and>
         intcmp 0x1000 0x5000 h' = Inr (1, h') \<and> (0x5000 :: word64) \<noteq> 0x1000) \<and>
   (\<exists>g'. objcpy 0x5000 0x1000 nested_heap = Inr (0x5000, g') \<and>
         objcmp (Suc 0) 0x1000 0x5000 g' = Inr (1, g') \<and> (0x5000 :: word64) \<noteq> 0x1000)"
proof -
  have A: "flat_array flat_heap 0x1000 [1, 2, 3] \<and> flat_in_reach [1, 2, 3] \<and>
      can_place flat_heap 0x5000 (Suc (length [1 :: word64, 2, 3]))"
    using flat_heap_arrays(1) flat_heap_place by (simp add: flat_in_reach_def INT_MAX_def)
  have B: "tagged_object nested_heap 0x1000 [(0, 5), (1, 0x3000)] \<and>
      pairs_in_reach [(0, 5), (1, 0x3000)] \<and>
      can_place nested_heap 0x5000 (Suc (2 * length [(0 :: word64, 5 :: word64), (1, 0x3000)]))"
    using nested_heap_objects(1) nested_heap_place by (simp add: pairs_in_reach_def INT_MAX_def)
  note T = clone_fidelity [of flat_heap "0x1000" "[1, 2, 3]" "0x5000" nested_heap "0x1000"
        "[(0, 5), (1, 0x3000)]" "0x5000" 0]
  show ?thesis
    by (rule conjI [OF T [THEN conjunct1, THEN mp, OF A] T [THEN conjunct2, THEN mp, OF B]])
qed

text \<open>
  C7. The clone of a valid tagged object, when the allocator can place the block, is
  shallow. Where pair \<open>k\<close> of \<open>x\<close> has a nonzero tag
  and the address \<open>y\<close> of a nested object as payload, the payload word of pair \<open>k\<close> of the
  clone is the same address \<open>y\<close>. The call changes no cell outside the \<open>1 + 2n\<close> words of
  the new block, so nothing else is allocated or written: a nested object at \<open>y\<close> is
  still the one object at \<open>y\<close>, shared by source and clone.
\<close>

theorem clone_shallow:
  assumes "tagged_object h x ps" "pairs_in_reach ps" "can_place h cand (Suc (2 * length ps))"
    "k < length ps" "ps ! k = (t, y)" "t \<noteq> 0"
  shows "\<exists>h'. objcpy cand x h = Inr (cand, h') \<and>
      h (idx x (2 * int k + 2)) = Val y \<and> h' (idx cand (2 * int k + 2)) = Val y \<and>
      (\<forall>q. (\<forall>m<Suc (2 * length ps). q \<noteq> idx cand (int m)) \<longrightarrow> h' q = h q) \<and>
      (\<forall>qs. tagged_object h y qs \<longrightarrow> tagged_object h' y qs)"
proof -
  from objcpy_object [OF assms(1,2,3)] obtain h' where
    h': "objcpy cand x h = Inr (cand, h')" "tagged_object h' cand ps"
      "\<forall>q. (\<forall>m<Suc (2 * length ps). q \<noteq> idx cand (int m)) \<longrightarrow> h' q = h q"
      "\<forall>q. h q \<noteq> Unmapped \<longrightarrow> h' q = h q"
    by blast
  have e: "1 + 2 * int k + 1 = 2 * int k + 2" by simp
  from assms(1) have "holds_pairs h x 1 ps" by (simp add: tagged_object_def)
  from holds_pairs_nth [OF this assms(4,5)] have a: "h (idx x (2 * int k + 2)) = Val y"
    by (simp only: e)
  from h'(2) have "holds_pairs h' cand 1 ps" by (simp add: tagged_object_def)
  from holds_pairs_nth [OF this assms(4,5)] have b: "h' (idx cand (2 * int k + 2)) = Val y"
    by (simp only: e)
  have c: "\<forall>qs. tagged_object h y qs \<longrightarrow> tagged_object h' y qs"
  proof (intro allI impI)
    fix qs assume y: "tagged_object h y qs"
    then have "h y \<noteq> Unmapped" by (simp add: tagged_object_def)
    with h'(4) have "h' y = h y" by blast
    moreover from y have "holds_words h y 1 (pair_words qs)"
      by (simp add: tagged_object_def holds_pairs_words)
    then have "holds_words h' y 1 (pair_words qs)"
      using h'(4) by (rule holds_words_mapped_frame)
    ultimately show "tagged_object h' y qs"
      using y by (simp add: tagged_object_def holds_pairs_words)
  qed
  from h'(1,3) a b c show ?thesis by blast
qed

theorem clone_shallow_witness:
  "\<exists>h'. objcpy 0x5000 0x1000 nested_heap = Inr (0x5000, h') \<and>
      nested_heap (idx 0x1000 (2 * int 1 + 2)) = Val 0x3000 \<and>
      h' (idx 0x5000 (2 * int 1 + 2)) = Val 0x3000 \<and>
      (\<forall>q. (\<forall>m<Suc (2 * length [(0 :: word64, 5 :: word64), (1, 0x3000)]).
              q \<noteq> idx 0x5000 (int m)) \<longrightarrow> h' q = nested_heap q) \<and>
      (\<forall>qs. tagged_object nested_heap 0x3000 qs \<longrightarrow> tagged_object h' 0x3000 qs)"
proof -
  have r: "pairs_in_reach [(0, 5), (1, 0x3000)]"
    by (simp add: pairs_in_reach_def INT_MAX_def)
  have k: "1 < length [(0 :: word64, 5 :: word64), (1, 0x3000)]"
    "[(0 :: word64, 5 :: word64), (1, 0x3000)] ! 1 = (1, 0x3000)" "(1 :: word64) \<noteq> 0"
    by simp_all
  show ?thesis
    by (rule clone_shallow [OF nested_heap_objects(1) r nested_heap_place k])
qed


lemma nested_heap_inner: "objcmp (Suc 0) 0x3000 0x4000 nested_heap = Inr (1, nested_heap)"
proof -
  have "pairs_in_reach [(0, 7)]" by (simp add: pairs_in_reach_def INT_MAX_def)
  from objcmp_objects [OF nested_heap_objects(3,4) this this, of 0] show ?thesis by simp
qed

lemma nested_heap_outer: "objcmp (Suc (Suc 0)) 0x1000 0x2000 nested_heap = Inr (1, nested_heap)"
proof -
  have "pairs_in_reach [(0, 5), (1, 0x3000)]" "pairs_in_reach [(0, 5), (1, 0x4000)]"
    by (simp_all add: pairs_in_reach_def INT_MAX_def)
  from objcmp_objects [OF nested_heap_objects(1,2) this, of "Suc 0"] show ?thesis
    by (simp add: nested_heap_inner del: objcmp.simps)
qed

lemma flat_heap_differ: "intcmp 0x1000 0x2000 flat_heap = Inr (0, flat_heap)"
proof -
  have "flat_in_reach [1, 2, 3]" "flat_in_reach [1, 2, 4]"
    by (simp_all add: flat_in_reach_def INT_MAX_def)
  from intcmp_arrays [OF flat_heap_arrays this] show ?thesis by simp
qed

section \<open>What the operations leave unchanged\<close>

text \<open>
  C10. A clone of a valid object, when the allocator can place the block, leaves its
  source as it was: every cell that was mapped before the call,
  the count word and the payload or pair words of the source among them, holds the same
  value after it, and the source is still laid out at its address. A compare that
  returns hands back the memory it was given: it writes to neither argument, nor to
  anything else.
\<close>

theorem sources_unchanged:
  "(flat_array h x vs \<and> flat_in_reach vs \<and> can_place h cand (Suc (length vs)) \<longrightarrow>
      (\<exists>h'. intcpy cand x h = Inr (cand, h') \<and> flat_array h' x vs \<and>
            (\<forall>q. h q \<noteq> Unmapped \<longrightarrow> h' q = h q))) \<and>
   (tagged_object g y ps \<and> pairs_in_reach ps \<and> can_place g cand' (Suc (2 * length ps)) \<longrightarrow>
      (\<exists>g'. objcpy cand' y g = Inr (cand', g') \<and> tagged_object g' y ps \<and>
            (\<forall>q. g q \<noteq> Unmapped \<longrightarrow> g' q = g q))) \<and>
   (intcmp a b m = Inr (r, m') \<longrightarrow> m' = m) \<and>
   (objcmp depth c d k = Inr (s, k') \<longrightarrow> k' = k)"
proof (intro conjI impI)
  assume "flat_array h x vs \<and> flat_in_reach vs \<and> can_place h cand (Suc (length vs))"
  then show "\<exists>h'. intcpy cand x h = Inr (cand, h') \<and> flat_array h' x vs \<and>
            (\<forall>q. h q \<noteq> Unmapped \<longrightarrow> h' q = h q)"
    using intcpy_array [of h x vs cand] by blast
next
  assume "tagged_object g y ps \<and> pairs_in_reach ps \<and> can_place g cand' (Suc (2 * length ps))"
  then show "\<exists>g'. objcpy cand' y g = Inr (cand', g') \<and> tagged_object g' y ps \<and>
            (\<forall>q. g q \<noteq> Unmapped \<longrightarrow> g' q = g q)"
    using objcpy_object [of g y ps cand'] by blast
next
  assume "intcmp a b m = Inr (r, m')"
  then show "m' = m" by (rule intcmp_pure)
next
  assume "objcmp depth c d k = Inr (s, k')"
  then show "k' = k" by (rule objcmp_heap)
qed

theorem sources_unchanged_witness:
  "(\<exists>h'. intcpy 0x5000 0x1000 flat_heap = Inr (0x5000, h') \<and> flat_array h' 0x1000 [1, 2, 3] \<and>
         (\<forall>q. flat_heap q \<noteq> Unmapped \<longrightarrow> h' q = flat_heap q)) \<and>
   (\<exists>g'. objcpy 0x5000 0x1000 nested_heap = Inr (0x5000, g') \<and>
         tagged_object g' 0x1000 [(0, 5), (1, 0x3000)] \<and>
         (\<forall>q. nested_heap q \<noteq> Unmapped \<longrightarrow> g' q = nested_heap q)) \<and>
   intcmp 0x1000 0x2000 flat_heap = Inr (0, flat_heap) \<and>
   objcmp (Suc (Suc 0)) 0x1000 0x2000 nested_heap = Inr (1, nested_heap)"
proof -
  have A: "flat_array flat_heap 0x1000 [1, 2, 3] \<and> flat_in_reach [1, 2, 3] \<and>
      can_place flat_heap 0x5000 (Suc (length [1 :: word64, 2, 3]))"
    using flat_heap_arrays(1) flat_heap_place by (simp add: flat_in_reach_def INT_MAX_def)
  have B: "tagged_object nested_heap 0x1000 [(0, 5), (1, 0x3000)] \<and>
      pairs_in_reach [(0, 5), (1, 0x3000)] \<and>
      can_place nested_heap 0x5000 (Suc (2 * length [(0 :: word64, 5 :: word64), (1, 0x3000)]))"
    using nested_heap_objects(1) nested_heap_place by (simp add: pairs_in_reach_def INT_MAX_def)
  note T = sources_unchanged [of flat_heap "0x1000" "[1, 2, 3]" "0x5000" nested_heap "0x1000"
      "[(0, 5), (1, 0x3000)]" "0x5000" "0x1000" "0x2000" flat_heap 0 flat_heap
      "Suc (Suc 0)" "0x1000" "0x2000" nested_heap 1 nested_heap]
  from T have T1: "\<exists>h'. intcpy 0x5000 0x1000 flat_heap = Inr (0x5000, h') \<and>
      flat_array h' 0x1000 [1, 2, 3] \<and> (\<forall>q. flat_heap q \<noteq> Unmapped \<longrightarrow> h' q = flat_heap q)"
    using A by blast
  from T have T2: "\<exists>g'. objcpy 0x5000 0x1000 nested_heap = Inr (0x5000, g') \<and>
         tagged_object g' 0x1000 [(0, 5), (1, 0x3000)] \<and>
         (\<forall>q. nested_heap q \<noteq> Unmapped \<longrightarrow> g' q = nested_heap q)"
    using B by blast
  from T1 T2 flat_heap_differ nested_heap_outer show ?thesis by simp
qed

section \<open>Fill\<close>

lemma idx_apart: "0 \<le> j \<Longrightarrow> j < k \<Longrightarrow> k \<le> INT_MAX \<Longrightarrow> idx a j \<noteq> idx a k"
  by (subst idx_inj) (simp_all add: INT_MAX_def)

lemma store_cell:
  assumes "holds_words h a j (w # ws)" "0 \<le> j" "j + int (length (w # ws)) \<le> INT_MAX"
  shows "store h (idx a j) v = Inr (h(idx a j := Val v))"
    and "holds_words (h(idx a j := Val v)) a (j + 1) ws"
proof -
  from assms(1) have "h (idx a j) = Val w" by simp
  then show "store h (idx a j) v = Inr (h(idx a j := Val v))" by (simp add: store_ok)
  show "holds_words (h(idx a j := Val v)) a (j + 1) ws"
  proof (rule holds_words_cong)
    show "holds_words h a (j + 1) ws" using assms(1) by simp
    show "\<forall>k. j + 1 \<le> k \<and> k < j + 1 + int (length ws) \<longrightarrow>
        (h(idx a j := Val v)) (idx a k) = h (idx a k)"
    proof (intro allI impI)
      fix k assume "j + 1 \<le> k \<and> k < j + 1 + int (length ws)"
      with assms(2,3) have "idx a j \<noteq> idx a k" by (intro idx_apart) simp_all
      then show "(h(idx a j := Val v)) (idx a k) = h (idx a k)" by simp
    qed
  qed
qed

lemma intfill_loop_done: "\<not> i < sint len \<Longrightarrow> intfill_loop obj v len i j h = Inr h"
  by (subst intfill_loop.simps) simp

lemma intfill_loop_step:
  "i < sint len \<Longrightarrow> store h (idx obj j) v = Inr h1 \<Longrightarrow> incr j = Inr j' \<Longrightarrow>
   incr i = Inr i' \<Longrightarrow> intfill_loop obj v len i j h = intfill_loop obj v len i' j' h1"
  by (subst intfill_loop.simps) simp

lemma intfill_loop_words:
  assumes "holds_words h obj j vs" "sint len = i + int (length vs)"
    "j + int (length vs) \<le> INT_MAX" "i < j" "0 \<le> j"
  shows "\<exists>h'. intfill_loop obj v len i j h = Inr h' \<and>
      holds_words h' obj j (replicate (length vs) v) \<and>
      (\<forall>q. (\<forall>k. j \<le> k \<and> k < j + int (length vs) \<longrightarrow> q \<noteq> idx obj k) \<longrightarrow> h' q = h q)"
  using assms
proof (induction vs arbitrary: i j h)
  case Nil
  then show ?case by (simp add: intfill_loop_done)
next
  case (Cons w ws)
  define h1 where "h1 = h(idx obj j := Val v)"
  from Cons.prems have lt: "i < sint len" "j < INT_MAX" "i < INT_MAX" by auto
  note sc = store_cell [OF Cons.prems(1,5,3), of v, folded h1_def]
  have step: "intfill_loop obj v len i j h = intfill_loop obj v len (i + 1) (j + 1) h1"
    using lt sc(1) by (intro intfill_loop_step) (simp_all add: incr_ok)
  have n': "sint len = i + 1 + int (length ws)" "j + 1 + int (length ws) \<le> INT_MAX"
    "i + 1 < j + 1" "0 \<le> j + 1"
    using Cons.prems by simp_all
  from Cons.IH [OF sc(2) n'] obtain h' where
    h': "intfill_loop obj v len (i + 1) (j + 1) h1 = Inr h'"
      "holds_words h' obj (j + 1) (replicate (length ws) v)"
      "\<forall>q. (\<forall>k. j + 1 \<le> k \<and> k < j + 1 + int (length ws) \<longrightarrow> q \<noteq> idx obj k) \<longrightarrow> h' q = h1 q"
    by blast
  have "\<forall>k. j + 1 \<le> k \<and> k < j + 1 + int (length ws) \<longrightarrow> idx obj j \<noteq> idx obj k"
  proof (intro allI impI)
    fix k assume "j + 1 \<le> k \<and> k < j + 1 + int (length ws)"
    with Cons.prems(3,5) show "idx obj j \<noteq> idx obj k" by (intro idx_apart) simp_all
  qed
  with h'(3) have "h' (idx obj j) = h1 (idx obj j)" by blast
  then have first: "h' (idx obj j) = Val v" by (simp add: h1_def)
  have frame: "\<forall>q. (\<forall>k. j \<le> k \<and> k < j + int (length (w # ws)) \<longrightarrow> q \<noteq> idx obj k) \<longrightarrow> h' q = h q"
  proof (intro allI impI)
    fix q assume q: "\<forall>k. j \<le> k \<and> k < j + int (length (w # ws)) \<longrightarrow> q \<noteq> idx obj k"
    then have "\<forall>k. j + 1 \<le> k \<and> k < j + 1 + int (length ws) \<longrightarrow> q \<noteq> idx obj k" by auto
    with h'(3) have "h' q = h1 q" by blast
    moreover from q have "q \<noteq> idx obj j" by auto
    ultimately show "h' q = h q" by (simp add: h1_def)
  qed
  from step h'(1,2) first frame show ?case by simp
qed


lemma objfill_loop_done: "\<not> i < sint len \<Longrightarrow> objfill_loop obj t v len i j h = Inr h"
  by (subst objfill_loop.simps) simp

lemma objfill_loop_step:
  "i < sint len \<Longrightarrow> store h (idx obj j) t = Inr h1 \<Longrightarrow> incr j = Inr j1 \<Longrightarrow>
   store h1 (idx obj j1) v = Inr h2 \<Longrightarrow> incr j1 = Inr j2 \<Longrightarrow> incr i = Inr i' \<Longrightarrow>
   objfill_loop obj t v len i j h = objfill_loop obj t v len i' j2 h2"
  by (subst objfill_loop.simps) simp

lemma objfill_loop_pairs:
  assumes "holds_words h obj j (pair_words ps)" "sint len = i + int (length ps)"
    "j + 2 * int (length ps) \<le> INT_MAX" "i < j" "0 \<le> j"
  shows "\<exists>h'. objfill_loop obj t v len i j h = Inr h' \<and>
      holds_words h' obj j (pair_words (replicate (length ps) (t, v))) \<and>
      (\<forall>q. (\<forall>k. j \<le> k \<and> k < j + 2 * int (length ps) \<longrightarrow> q \<noteq> idx obj k) \<longrightarrow> h' q = h q)"
  using assms
proof (induction ps arbitrary: i j h)
  case Nil
  then show ?case by (simp add: objfill_loop_done)
next
  case (Cons p ps)
  obtain t0 v0 where p: "p = (t0, v0)" by (cases p)
  define h1 where "h1 = h(idx obj j := Val t)"
  define h2 where "h2 = h1(idx obj (j + 1) := Val v)"
  from Cons.prems have lt: "i < sint len" "j < INT_MAX" "j + 1 < INT_MAX" "i < INT_MAX"
    by auto
  have w1: "holds_words h obj j (t0 # v0 # pair_words ps)" using Cons.prems(1) p by simp
  have b1: "j + int (length (t0 # v0 # pair_words ps)) \<le> INT_MAX"
    using Cons.prems(3) by (simp add: length_pair_words)
  note s1 = store_cell [OF w1 Cons.prems(5) b1, of t, folded h1_def]
  have b2: "j + 1 + int (length (v0 # pair_words ps)) \<le> INT_MAX" "0 \<le> j + 1"
    using Cons.prems(3,5) by (simp_all add: length_pair_words)
  note s2 = store_cell [OF s1(2) b2(2) b2(1), of v, folded h2_def]
  have j2: "j + 1 + 1 = j + 2" by simp
  have step: "objfill_loop obj t v len i j h = objfill_loop obj t v len (i + 1) (j + 2) h2"
    using lt s1(1) s2(1) by (intro objfill_loop_step [where ?j1.0 = "j + 1"]) (simp_all add: incr_ok)
  have w2: "holds_words h2 obj (j + 2) (pair_words ps)" using s2(2) by (simp only: j2)
  have n': "sint len = i + 1 + int (length ps)" "j + 2 + 2 * int (length ps) \<le> INT_MAX"
    "i + 1 < j + 2" "0 \<le> j + 2"
    using Cons.prems by simp_all
  from Cons.IH [OF w2 n'] obtain h' where
    h': "objfill_loop obj t v len (i + 1) (j + 2) h2 = Inr h'"
      "holds_words h' obj (j + 2) (pair_words (replicate (length ps) (t, v)))"
      "\<forall>q. (\<forall>k. j + 2 \<le> k \<and> k < j + 2 + 2 * int (length ps) \<longrightarrow> q \<noteq> idx obj k) \<longrightarrow> h' q = h2 q"
    by blast
  have apart: "\<forall>k. j + 2 \<le> k \<and> k < j + 2 + 2 * int (length ps) \<longrightarrow>
      idx obj j \<noteq> idx obj k \<and> idx obj (j + 1) \<noteq> idx obj k"
  proof (intro allI impI conjI)
    fix k assume k: "j + 2 \<le> k \<and> k < j + 2 + 2 * int (length ps)"
    with Cons.prems(3,5) show "idx obj j \<noteq> idx obj k" by (intro idx_apart) simp_all
    from k Cons.prems(3,5) show "idx obj (j + 1) \<noteq> idx obj k" by (intro idx_apart) simp_all
  qed
  have ne: "idx obj j \<noteq> idx obj (j + 1)"
    using Cons.prems(3,5) by (intro idx_apart) simp_all
  from apart h'(3) have "h' (idx obj j) = h2 (idx obj j)" "h' (idx obj (j + 1)) = h2 (idx obj (j + 1))"
    by blast+
  with ne have first: "h' (idx obj j) = Val t" "h' (idx obj (j + 1)) = Val v"
    by (simp_all add: h1_def h2_def)
  have frame: "\<forall>q. (\<forall>k. j \<le> k \<and> k < j + 2 * int (length (p # ps)) \<longrightarrow> q \<noteq> idx obj k) \<longrightarrow> h' q = h q"
  proof (intro allI impI)
    fix q assume q: "\<forall>k. j \<le> k \<and> k < j + 2 * int (length (p # ps)) \<longrightarrow> q \<noteq> idx obj k"
    then have "\<forall>k. j + 2 \<le> k \<and> k < j + 2 + 2 * int (length ps) \<longrightarrow> q \<noteq> idx obj k" by auto
    with h'(3) have "h' q = h2 q" by blast
    moreover from q have "q \<noteq> idx obj j" "q \<noteq> idx obj (j + 1)" by auto
    ultimately show "h' q = h q" by (simp add: h1_def h2_def)
  qed
  have "holds_words h' obj j (t # v # pair_words (replicate (length ps) (t, v)))"
    using first h'(2) by (simp add: j2)
  with step h'(1) frame show ?case by simp
qed

text \<open>
  C6. After \<open>intfill a v\<close> every payload slot of the valid flat array at \<open>a\<close> holds \<open>v\<close>;
  after \<open>objfill b t w\<close> every pair of the valid tagged object at \<open>b\<close> holds \<open>(t, w)\<close>. In both cases
  the count word is the one from before the call and every cell other than the \<open>n\<close>
  payload words (the \<open>2n\<close> pair words) keeps its value.
\<close>

theorem fill_uniform:
  "(flat_array h a vs \<and> flat_in_reach vs \<longrightarrow>
      (\<exists>h'. intfill a v h = Inr h' \<and> flat_array h' a (replicate (length vs) v) \<and> h' a = h a \<and>
            (\<forall>q. (\<forall>k. 1 \<le> k \<and> k \<le> int (length vs) \<longrightarrow> q \<noteq> idx a k) \<longrightarrow> h' q = h q))) \<and>
   (tagged_object g b ps \<and> pairs_in_reach ps \<longrightarrow>
      (\<exists>g'. objfill b t w g = Inr g' \<and> tagged_object g' b (replicate (length ps) (t, w)) \<and>
            g' b = g b \<and>
            (\<forall>q. (\<forall>k. 1 \<le> k \<and> k \<le> 2 * int (length ps) \<longrightarrow> q \<noteq> idx b k) \<longrightarrow> g' q = g q)))"
proof (intro conjI impI)
  assume a: "flat_array h a vs \<and> flat_in_reach vs"
  define len :: word64 where "len = word_of_nat (length vs)"
  from a have L: "int (length vs) < INT_MAX" by (simp add: flat_in_reach_def)
  then have sl: "sint len = 0 + int (length vs)"
    unfolding len_def by (simp add: sint_count INT_MAX_def)
  from a have hx: "h a = Val len" and pw: "holds_words h a 1 vs"
    by (simp_all add: flat_array_def len_def)
  have b: "1 + int (length vs) \<le> INT_MAX" "(0 :: int) < 1" "(0 :: int) \<le> 1" using L by simp_all
  from intfill_loop_words [OF pw sl b, of v] obtain h' where
    h': "intfill_loop a v len 0 1 h = Inr h'" "holds_words h' a 1 (replicate (length vs) v)"
      "\<forall>q. (\<forall>k. 1 \<le> k \<and> k < 1 + int (length vs) \<longrightarrow> q \<noteq> idx a k) \<longrightarrow> h' q = h q"
    by blast
  have run: "intfill a v h = Inr h'"
    by (simp add: intfill_def idx_0 load_Val hx h'(1))
  have "\<forall>k. 1 \<le> k \<and> k < 1 + int (length vs) \<longrightarrow> idx a 0 \<noteq> idx a k"
  proof (intro allI impI)
    fix k assume "1 \<le> k \<and> k < 1 + int (length vs)"
    with L show "idx a 0 \<noteq> idx a k" by (intro idx_apart) simp_all
  qed
  with h'(3) have hd: "h' a = h a" by (simp add: idx_0)
  with hx h'(2) have fa: "flat_array h' a (replicate (length vs) v)"
    by (simp add: flat_array_def len_def)
  have fr: "\<forall>q. (\<forall>k. 1 \<le> k \<and> k \<le> int (length vs) \<longrightarrow> q \<noteq> idx a k) \<longrightarrow> h' q = h q"
  proof (intro allI impI)
    fix q assume "\<forall>k. 1 \<le> k \<and> k \<le> int (length vs) \<longrightarrow> q \<noteq> idx a k"
    then have "\<forall>k. 1 \<le> k \<and> k < 1 + int (length vs) \<longrightarrow> q \<noteq> idx a k" by simp
    with h'(3) show "h' q = h q" by blast
  qed
  from run fa hd fr
  show "\<exists>h'. intfill a v h = Inr h' \<and> flat_array h' a (replicate (length vs) v) \<and> h' a = h a \<and>
            (\<forall>q. (\<forall>k. 1 \<le> k \<and> k \<le> int (length vs) \<longrightarrow> q \<noteq> idx a k) \<longrightarrow> h' q = h q)"
    by blast
next
  assume a: "tagged_object g b ps \<and> pairs_in_reach ps"
  define len :: word64 where "len = word_of_nat (length ps)"
  from a have L: "2 * int (length ps) < INT_MAX" by (simp add: pairs_in_reach_def)
  then have sl: "sint len = 0 + int (length ps)"
    unfolding len_def by (simp add: sint_count INT_MAX_def)
  from a have hx: "g b = Val len" and pw: "holds_words g b 1 (pair_words ps)"
    by (simp_all add: tagged_object_def len_def holds_pairs_words)
  have bd: "1 + 2 * int (length ps) \<le> INT_MAX" "(0 :: int) < 1" "(0 :: int) \<le> 1"
    using L by simp_all
  from objfill_loop_pairs [OF pw sl bd, of t w] obtain g' where
    g': "objfill_loop b t w len 0 1 g = Inr g'"
      "holds_words g' b 1 (pair_words (replicate (length ps) (t, w)))"
      "\<forall>q. (\<forall>k. 1 \<le> k \<and> k < 1 + 2 * int (length ps) \<longrightarrow> q \<noteq> idx b k) \<longrightarrow> g' q = g q"
    by blast
  have run: "objfill b t w g = Inr g'"
    by (simp add: objfill_def idx_0 load_Val hx g'(1))
  have "\<forall>k. 1 \<le> k \<and> k < 1 + 2 * int (length ps) \<longrightarrow> idx b 0 \<noteq> idx b k"
  proof (intro allI impI)
    fix k assume "1 \<le> k \<and> k < 1 + 2 * int (length ps)"
    with L show "idx b 0 \<noteq> idx b k" by (intro idx_apart) simp_all
  qed
  with g'(3) have hd: "g' b = g b" by (simp add: idx_0)
  with hx g'(2) have fa: "tagged_object g' b (replicate (length ps) (t, w))"
    by (simp add: tagged_object_def len_def holds_pairs_words)
  have fr: "\<forall>q. (\<forall>k. 1 \<le> k \<and> k \<le> 2 * int (length ps) \<longrightarrow> q \<noteq> idx b k) \<longrightarrow> g' q = g q"
  proof (intro allI impI)
    fix q assume "\<forall>k. 1 \<le> k \<and> k \<le> 2 * int (length ps) \<longrightarrow> q \<noteq> idx b k"
    then have "\<forall>k. 1 \<le> k \<and> k < 1 + 2 * int (length ps) \<longrightarrow> q \<noteq> idx b k" by simp
    with g'(3) show "g' q = g q" by blast
  qed
  from run fa hd fr
  show "\<exists>g'. objfill b t w g = Inr g' \<and> tagged_object g' b (replicate (length ps) (t, w)) \<and>
            g' b = g b \<and>
            (\<forall>q. (\<forall>k. 1 \<le> k \<and> k \<le> 2 * int (length ps) \<longrightarrow> q \<noteq> idx b k) \<longrightarrow> g' q = g q)"
    by blast
qed

theorem fill_uniform_witness:
  "(\<exists>h'. intfill 0x1000 9 flat_heap = Inr h' \<and>
         flat_array h' 0x1000 (replicate (length [1 :: word64, 2, 3]) 9) \<and>
         h' 0x1000 = flat_heap 0x1000 \<and>
         (\<forall>q. (\<forall>k. 1 \<le> k \<and> k \<le> int (length [1 :: word64, 2, 3]) \<longrightarrow> q \<noteq> idx 0x1000 k) \<longrightarrow>
              h' q = flat_heap q)) \<and>
   (\<exists>g'. objfill 0x1000 8 9 nested_heap = Inr g' \<and>
         tagged_object g' 0x1000 (replicate (length [(0 :: word64, 5 :: word64), (1, 0x3000)]) (8, 9)) \<and>
         g' 0x1000 = nested_heap 0x1000 \<and>
         (\<forall>q. (\<forall>k. 1 \<le> k \<and> k \<le> 2 * int (length [(0 :: word64, 5 :: word64), (1, 0x3000)]) \<longrightarrow>
                 q \<noteq> idx 0x1000 k) \<longrightarrow> g' q = nested_heap q))"
proof -
  have A: "flat_array flat_heap 0x1000 [1, 2, 3] \<and> flat_in_reach [1, 2, 3]"
    using flat_heap_arrays(1) by (simp add: flat_in_reach_def INT_MAX_def)
  have B: "tagged_object nested_heap 0x1000 [(0, 5), (1, 0x3000)] \<and>
      pairs_in_reach [(0, 5), (1, 0x3000)]"
    using nested_heap_objects(1) by (simp add: pairs_in_reach_def INT_MAX_def)
  note T = fill_uniform [of flat_heap "0x1000" "[1, 2, 3]" 9 nested_heap "0x1000"
      "[(0, 5), (1, 0x3000)]" 8 9]
  show ?thesis
    by (rule conjI [OF T [THEN conjunct1, THEN mp, OF A] T [THEN conjunct2, THEN mp, OF B]])
qed

section \<open>Nested equality\<close>

lemma objcmp_loop_repr:
  assumes rec: "\<forall>sub p q. repr h p sub \<and> repr h q sub \<and> height sub < d \<longrightarrow>
      objcmp d p q h = Inr (1, h)"
  shows "repr_elems h a j es \<Longrightarrow> repr_elems h b j es \<Longrightarrow> height_elems es \<le> d \<Longrightarrow>
    sint len = i + int (length es) \<Longrightarrow> j + 2 * int (length es) \<le> INT_MAX \<Longrightarrow> i < j \<Longrightarrow>
    objcmp_loop (objcmp d) a b len i j h = Inr (1, h)"
proof (induction es arbitrary: i j)
  case Nil
  then show ?case by (simp add: objcmp_loop_done)
next
  case (Cons e es)
  from Cons.prems have lt: "i < sint len" and bj: "j < INT_MAX" "j + 1 < INT_MAX" "i < INT_MAX"
    by auto
  have nx: "incr j = Inr (j + 1)" "incr (j + 1) = Inr (j + 2)" "incr i = Inr (i + 1)"
    using bj by (simp_all add: incr_ok)
  show ?case
  proof (cases e)
    case (Scalar v)
    with Cons.prems have L: "load h (idx a j) = Inr 0" "load h (idx b j) = Inr 0"
      "load h (idx a (j + 1)) = Inr v" "load h (idx b (j + 1)) = Inr v"
      by (simp_all add: load_Val)
    have rest: "objcmp_loop (objcmp d) a b len (i + 1) (j + 2) h = Inr (1, h)"
      using Cons.prems Scalar by (intro Cons.IH) simp_all
    show ?thesis
      unfolding objcmp_loop_step [OF lt L(1,2) nx(1) L(3,4)] by (simp add: nx rest)
  next
    case (Nested t sub)
    with Cons.prems obtain p1 p2 where
      P: "h (idx a (j + 1)) = Val p1" "repr h p1 sub" "h (idx b (j + 1)) = Val p2" "repr h p2 sub"
      by (auto split: cell.splits)
    from Cons.prems Nested have T: "t \<noteq> 0" "h (idx a j) = Val t" "h (idx b j) = Val t"
      by simp_all
    have L: "load h (idx a j) = Inr t" "load h (idx b j) = Inr t"
      "load h (idx a (j + 1)) = Inr p1" "load h (idx b (j + 1)) = Inr p2"
      using P T by (simp_all add: load_Val)
    from Cons.prems(3) Nested have "height sub < d" by simp
    with rec P have R: "objcmp d p1 p2 h = Inr (1, h)" by blast
    have rest: "objcmp_loop (objcmp d) a b len (i + 1) (j + 2) h = Inr (1, h)"
      using Cons.prems Nested by (intro Cons.IH) simp_all
    show ?thesis
      unfolding objcmp_loop_step [OF lt L(1,2) nx(1) L(3,4)] by (simp add: nx rest R T)
  qed
qed

lemma objcmp_repr:
  "repr h a t \<Longrightarrow> repr h b t \<Longrightarrow> height t < d \<Longrightarrow> objcmp d a b h = Inr (1, h)"
proof (induction d arbitrary: a b t)
  case 0
  then show ?case by simp
next
  case (Suc d)
  obtain es where t: "t = TObj es" by (cases t)
  have rec: "\<forall>sub p q. repr h p sub \<and> repr h q sub \<and> height sub < d \<longrightarrow>
      objcmp d p q h = Inr (1, h)"
    using Suc.IH by blast
  from Suc.prems t have ha: "h a = Val (word_of_nat (length es))"
    and hb: "h b = Val (word_of_nat (length es))"
    and L: "2 * int (length es) < INT_MAX"
    and ra: "repr_elems h a 1 es" and rb: "repr_elems h b 1 es"
    and ht: "height_elems es \<le> d"
    by simp_all
  have sl: "sint (word_of_nat (length es) :: word64) = 0 + int (length es)"
    using L by (simp add: sint_count INT_MAX_def)
  have bd: "1 + 2 * int (length es) \<le> INT_MAX" "(0 :: int) < 1" using L by simp_all
  from objcmp_loop_repr [OF rec ra rb ht sl bd]
  show ?case by (simp add: load_Val ha hb)
qed

text \<open>
  C8. Two addresses at which memory lays out the same tree of tagged objects (equal
  counts, equal tags, equal scalars, and recursively the same sub-trees behind the
  nonzero-tag payloads, at whatever addresses those sub-objects live) compare equal:
  \<open>objcmp\<close> returns 1, given more stack frames than the tree is high.
\<close>

theorem nested_equality:
  assumes "repr h a t" "repr h b t" "height t < depth"
  shows "objcmp depth a b h = Inr (1, h)"
  using assms by (rule objcmp_repr)

theorem nested_equality_witness:
  "objcmp (Suc (Suc 0)) 0x1000 0x2000 nested_heap = Inr (1, nested_heap) \<and>
   nested_heap (idx 0x1000 4) = Val 0x3000 \<and> nested_heap (idx 0x2000 4) = Val 0x4000"
proof -
  have a: "repr nested_heap 0x1000 (TObj [Scalar 5, Nested 1 (TObj [Scalar 7])])"
    by (simp add: nested_heap_def heap_of_def idx_def INT_MAX_def)
  have b: "repr nested_heap 0x2000 (TObj [Scalar 5, Nested 1 (TObj [Scalar 7])])"
    by (simp add: nested_heap_def heap_of_def idx_def INT_MAX_def)
  have c: "height (TObj [Scalar 5, Nested 1 (TObj [Scalar 7])]) < Suc (Suc 0)"
    by simp
  have "nested_heap (idx 0x1000 4) = Val 0x3000 \<and> nested_heap (idx 0x2000 4) = Val 0x4000"
    by (simp add: nested_heap_def heap_of_def idx_def)
  with nested_equality [OF a b c] show ?thesis by (simp only: simp_thms)
qed

section \<open>Abnormal exits\<close>















lemma cyclic_step:
  "objcmp d 0x2000 0x1000 cyclic_heap = Inl StackExhausted \<Longrightarrow>
   objcmp (Suc d) 0x1000 0x2000 cyclic_heap = Inl StackExhausted"
proof -
  assume R: "objcmp d 0x2000 0x1000 cyclic_heap = Inl StackExhausted"
  have L: "load cyclic_heap (idx 0x1000 1) = Inr 1" "load cyclic_heap (idx 0x2000 1) = Inr 1"
    "incr 1 = Inr 2"
    "load cyclic_heap (idx 0x1000 2) = Inr 0x2000" "load cyclic_heap (idx 0x2000 2) = Inr 0x1000"
    by (simp_all add: load_def cyclic_heap_def heap_of_def idx_def incr_def INT_MAX_def)
  have H: "load cyclic_heap 0x1000 = Inr 1" "load cyclic_heap 0x2000 = Inr 1"
    by (simp_all add: load_def cyclic_heap_def heap_of_def)
  have lt: "(0 :: int) < sint (1 :: word64)" by simp
  show ?thesis
    by (simp add: H objcmp_loop_step [OF lt L] R)
qed

lemma cyclic_step': 
  "objcmp d 0x1000 0x2000 cyclic_heap = Inl StackExhausted \<Longrightarrow>
   objcmp (Suc d) 0x2000 0x1000 cyclic_heap = Inl StackExhausted"
  using cyclic_step [of d] by (simp only: objcmp_sym [of _ "0x2000" "0x1000"])














end
